theory Spec2Isabelle
  imports Main "HOL-Library.Word" "HOL-Library.Multiset"
begin

section \<open>Parsed document values\<close>

text \<open>
  A \<open>simdjson::dom::element\<close> is a handle into the document of the parser that produced
  it. The type \<open>element\<close> is the value a handle denotes while that document is in place: the
  eight cases of \<open>dom::element_type\<close>, an object as the list of its members in document
  order, an array as the list of its elements. The handles themselves, and what becomes of
  them when the parser reads another file, are part of the state of the reader below.

  A JSON number that simdjson stores as a \<open>double\<close> is always finite. The model keeps its
  sign bit and its magnitude \<open>mantissa * 2 ^ exponent\<close>, so that \<open>-0.0\<close> is distinct from
  \<open>0.0\<close>, as it is for \<open>std::to_string\<close>.
\<close>

datatype double = Double (negative: bool) (mantissa: nat) (exponent: int)

datatype element =
    INT64 "64 word"
  | UINT64 "64 word"
  | DOUBLE double
  | STRING string
  | BOOL bool
  | NULL_VALUE
  | ARRAY "element list"
  | OBJECT "(string \<times> element) list"

datatype element_type =
    T_ARRAY | T_OBJECT | T_INT64 | T_UINT64 | T_DOUBLE | T_STRING | T_BOOL | T_NULL_VALUE

fun elem_type :: "element \<Rightarrow> element_type" where
  "elem_type (INT64 _) = T_INT64"
| "elem_type (UINT64 _) = T_UINT64"
| "elem_type (DOUBLE _) = T_DOUBLE"
| "elem_type (STRING _) = T_STRING"
| "elem_type (BOOL _) = T_BOOL"
| "elem_type NULL_VALUE = T_NULL_VALUE"
| "elem_type (ARRAY _) = T_ARRAY"
| "elem_type (OBJECT _) = T_OBJECT"

section \<open>\<open>std::to_string\<close>\<close>

text \<open>
  \<open>std::to_string\<close> of an integer writes it in base 10, with a leading \<open>-\<close> when it is
  negative. \<open>std::to_string\<close> of a \<open>double\<close> is \<open>sprintf\<close> with the format \<open>%f\<close>: fixed
  notation with exactly six digits after the decimal point, the value rounded to the
  nearest multiple of \<open>10^-6\<close> (ties to even, the default rounding mode). \<open>sprintf\<close> takes
  the decimal point from the \<open>LC_NUMERIC\<close> category of the current locale: \<open>point\<close> below,
  \<open>.\<close> in the C locale and \<open>,\<close> in many others. Without the \<open>'\<close> flag it does not group digits.
\<close>

definition digit_char :: "nat \<Rightarrow> char" where
  "digit_char n = ''0123456789'' ! (n mod 10)"

fun to_string_nat :: "nat \<Rightarrow> string" where
  "to_string_nat n =
     (if n < 10 then [digit_char n] else to_string_nat (n div 10) @ [digit_char (n mod 10)])"

declare to_string_nat.simps [simp del]

definition to_string_int :: "int \<Rightarrow> string" where
  "to_string_int i = (if i < 0 then ''-'' @ to_string_nat (nat (- i)) else to_string_nat (nat i))"

definition round_half_even :: "nat \<Rightarrow> nat \<Rightarrow> nat" where
  "round_half_even num den =
     (let q = num div den; r = num mod den
      in if den < 2 * r \<or> (2 * r = den \<and> odd q) then q + 1 else q)"

definition micro_units :: "double \<Rightarrow> nat" where
  "micro_units d =
     (if 0 \<le> exponent d then mantissa d * 2 ^ nat (exponent d) * 1000000
      else round_half_even (mantissa d * 1000000) (2 ^ nat (- exponent d)))"

definition to_string_double :: "string \<Rightarrow> double \<Rightarrow> string" where
  "to_string_double point d =
     (let q = micro_units d; frac = to_string_nat (q mod 1000000)
      in (if negative d then ''-'' else []) @ to_string_nat (q div 1000000) @ point
           @ replicate (6 - length frac) (CHR ''0'') @ frac)"

section \<open>The scalar formatter\<close>

datatype QColor = QColor nat nat nat

record JsonElementDisplay =
  dvalue :: string
  color :: QColor

text \<open>
  The \<open>switch\<close> of \<open>get_json_element_display\<close> has one case for each of the eight values of
  \<open>element_type\<close>; its \<open>default\<close> branch (\<open>UNKNOWN_TYPE\<close>) is not reached by any of them.
  \<open>point\<close> is the decimal point of the locale, which \<open>std::to_string\<close> reads.
\<close>

fun get_json_element_display :: "string \<Rightarrow> element \<Rightarrow> JsonElementDisplay" where
  "get_json_element_display point (INT64 v) =
     \<lparr>dvalue = to_string_int (sint v), color = QColor 0 0 255\<rparr>"
| "get_json_element_display point (UINT64 v) =
     \<lparr>dvalue = to_string_nat (unat v), color = QColor 0 0 255\<rparr>"
| "get_json_element_display point (DOUBLE v) =
     \<lparr>dvalue = to_string_double point v, color = QColor 0 103 156\<rparr>"
| "get_json_element_display point (STRING v) =
     \<lparr>dvalue = v, color = QColor 128 128 255\<rparr>"
| "get_json_element_display point (BOOL v) =
     \<lparr>dvalue = (if v then ''true'' else ''false''), color = QColor 255 0 255\<rparr>"
| "get_json_element_display point NULL_VALUE =
     \<lparr>dvalue = ''null'', color = QColor 128 128 128\<rparr>"
| "get_json_element_display point (ARRAY v) =
     \<lparr>dvalue = ''ARRAY'', color = QColor 255 0 0\<rparr>"
| "get_json_element_display point (OBJECT v) =
     \<lparr>dvalue = ''OBJECT'', color = QColor 48 186 143\<rparr>"

section \<open>The display tree and the state of the reader\<close>

text \<open>
  A \<open>QTreeWidgetItem*\<close> is an address; \<open>nullptr\<close> is \<open>None\<close>. The store maps the allocated
  addresses to the items: the text of column 0, the foreground colour, the children in
  order, the parent and the two view flags. \<open>new\<close> takes the address \<open>next_ptr\<close>, which is
  above every address handed out before.

  The reader's state holds the store, the widgets the slots read (the top-level items and
  the current item of the tree widget, the text of the text edit, the radio button), the
  members \<open>lastSearchText\<close>, \<open>lastMatch\<close> and \<open>itemElementMap\<close>, the messages written
  with \<open>qInfo\<close>, and two things the code reads from its environment: the decimal point of
  the locale (\<open>QApplication\<close> sets the locale of the process from the environment, so it is
  a parameter of the initial state), and the document of the member \<open>parser\<close>.

  The reader has one \<open>simdjson::dom::parser\<close>, and a parser holds one document: every
  \<open>parser.load\<close> that reaches the parsing stage writes over it, after which the elements
  obtained before must not be used. \<open>parser_doc\<close> counts these documents. A \<open>handle\<close> is an
  element as the code stores it, the number of the document it points into and the value it
  denotes there; \<open>deref\<close> reads a handle, and has no defined result when the parser holds
  another document by now. \<open>registry\<close> is \<open>itemElementMap\<close> with the values the handles were
  created for, and \<open>fresh\<close> says that every stored handle points into the document the
  parser holds.

  A function that dereferences a pointer returns \<open>None\<close> when the pointer is not allocated.
\<close>

type_synonym ptr = nat

type_synonym handle = "nat \<times> element"

record QTreeWidgetItem =
  text0 :: string
  foreground :: "QColor option"
  children :: "ptr list"
  parent :: "ptr option"
  selected :: bool
  expanded :: bool

record JsonReader =
  heap :: "ptr \<rightharpoonup> QTreeWidgetItem"
  next_ptr :: ptr
  topLevelItems :: "ptr list"
  currentItem :: "ptr option"
  scrolledTo :: "ptr option"
  textEdit :: string
  radioCapital :: bool
  lastSearchText :: string
  lastMatch :: "ptr option"
  itemElementMap :: "ptr \<rightharpoonup> handle"
  messages :: "string list"
  decimal_point :: string
  parser_doc :: nat

definition initial :: "string \<Rightarrow> JsonReader" where
  "initial point =
     \<lparr>heap = Map.empty, next_ptr = 0, topLevelItems = [], currentItem = None,
      scrolledTo = None, textEdit = [], radioCapital = False, lastSearchText = [],
      lastMatch = None, itemElementMap = Map.empty, messages = [],
      decimal_point = point, parser_doc = 0\<rparr>"

definition deref :: "JsonReader \<Rightarrow> handle \<Rightarrow> element option" where
  "deref st element = (if fst element = parser_doc st then Some (snd element) else None)"

definition registry :: "JsonReader \<Rightarrow> ptr \<rightharpoonup> element" where
  "registry st a = map_option snd (itemElementMap st a)"

definition fresh :: "JsonReader \<Rightarrow> bool" where
  "fresh st \<longleftrightarrow> (\<forall>a element. itemElementMap st a = Some element \<longrightarrow> fst element = parser_doc st)"

definition qInfo :: "string \<Rightarrow> JsonReader \<Rightarrow> JsonReader" where
  "qInfo msg st = st\<lparr>messages := messages st @ [msg]\<rparr>"

subsection \<open>The operations of \<open>QTreeWidgetItem\<close> the reader uses\<close>

definition new_QTreeWidgetItem :: "string \<Rightarrow> JsonReader \<Rightarrow> ptr \<times> JsonReader" where
  "new_QTreeWidgetItem s st =
     (next_ptr st,
      st\<lparr>heap := (heap st)(next_ptr st \<mapsto>
             \<lparr>text0 = s, foreground = None, children = [], parent = None,
              selected = False, expanded = False\<rparr>),
         next_ptr := Suc (next_ptr st)\<rparr>)"

definition setForeground :: "ptr \<Rightarrow> QColor \<Rightarrow> JsonReader \<Rightarrow> JsonReader option" where
  "setForeground item c st =
     (case heap st item of
        None \<Rightarrow> None
      | Some it \<Rightarrow> Some (st\<lparr>heap := (heap st)(item \<mapsto> it\<lparr>foreground := Some c\<rparr>)\<rparr>))"

text \<open>\<open>addChild\<close> appends the child and sets its parent; Qt ignores a child that has a parent.\<close>

definition addChild :: "ptr \<Rightarrow> ptr \<Rightarrow> JsonReader \<Rightarrow> JsonReader option" where
  "addChild item child st =
     (case heap st item of
        None \<Rightarrow> None
      | Some it \<Rightarrow>
          (case heap st child of
             None \<Rightarrow> None
           | Some ct \<Rightarrow>
               if parent ct \<noteq> None then Some st
               else
                 (let h1 = (heap st)(child \<mapsto> ct\<lparr>parent := Some item\<rparr>) in
                  case h1 item of
                    None \<Rightarrow> None
                  | Some it1 \<Rightarrow>
                      Some (st\<lparr>heap := h1(item \<mapsto> it1\<lparr>children := children it1 @ [child]\<rparr>)\<rparr>))))"

text \<open>
  \<open>delete\<close> of an item destroys the item and, through its destructor, every item below it.
\<close>

partial_function (option) destroy ::
  "ptr list \<Rightarrow> (ptr \<rightharpoonup> QTreeWidgetItem) \<Rightarrow> (ptr \<rightharpoonup> QTreeWidgetItem) option" where
  "destroy items h =
     (case items of
        [] \<Rightarrow> Some h
      | a # rest \<Rightarrow>
          (case h a of
             None \<Rightarrow> None
           | Some it \<Rightarrow> destroy (children it @ rest) (h(a := None))))"

declare destroy.simps [code]

text \<open>\<open>delete item->takeChild(0)\<close>, for an item whose first child is \<open>c\<close>.\<close>

definition delete_takeChild0 :: "ptr \<Rightarrow> JsonReader \<Rightarrow> JsonReader option" where
  "delete_takeChild0 item st =
     (case heap st item of
        None \<Rightarrow> None
      | Some it \<Rightarrow>
          (case children it of
             [] \<Rightarrow> None
           | c # cs \<Rightarrow>
               (case heap st c of
                  None \<Rightarrow> None
                | Some ct \<Rightarrow>
                    (let h1 = (heap st)(item \<mapsto> it\<lparr>children := cs\<rparr>);
                         h2 = h1(c \<mapsto> ct\<lparr>parent := None\<rparr>)
                     in case destroy [c] h2 of
                          None \<Rightarrow> None
                        | Some h3 \<Rightarrow> Some (st\<lparr>heap := h3\<rparr>)))))"

section \<open>The lazy tree materializer\<close>

definition is_container :: "element \<Rightarrow> bool" where
  "is_container v = (elem_type v = T_OBJECT \<or> elem_type v = T_ARRAY)"

text \<open>The lambda \<open>add_child\<close> of \<open>add_children_to_item\<close>, for the item it captures.\<close>

definition add_child :: "ptr \<Rightarrow> string \<Rightarrow> element \<Rightarrow> JsonReader \<Rightarrow> JsonReader option" where
  "add_child item key v st =
     (let elementDisplay = get_json_element_display (decimal_point st) v;
          (child, st1) = new_QTreeWidgetItem (key @ '': '' @ dvalue elementDisplay) st
      in case setForeground child (color elementDisplay) st1 of
           None \<Rightarrow> None
         | Some st2 \<Rightarrow>
             (case addChild item child st2 of
                None \<Rightarrow> None
              | Some st3 \<Rightarrow>
                  if elem_type v = T_OBJECT \<or> elem_type v = T_ARRAY then
                    (let (dummy, st4) = new_QTreeWidgetItem [] st3 in
                     case addChild child dummy st4 of
                       None \<Rightarrow> None
                     | Some st5 \<Rightarrow>
                         Some (st5\<lparr>itemElementMap :=
                                     (itemElementMap st5)(child \<mapsto> (parser_doc st5, v))\<rparr>))
                  else Some st3))"

text \<open>The loop over the members of an object.\<close>

fun add_members :: "ptr \<Rightarrow> (string \<times> element) list \<Rightarrow> JsonReader \<Rightarrow> JsonReader option" where
  "add_members item [] st = Some st"
| "add_members item ((key, v) # obj) st =
     (case add_child item key v st of
        None \<Rightarrow> None
      | Some st1 \<Rightarrow> add_members item obj st1)"

text \<open>The loop over the elements of an array; \<open>index\<close> is an \<open>int\<close> of 32 bits.\<close>

fun add_elements :: "ptr \<Rightarrow> 32 word \<Rightarrow> element list \<Rightarrow> JsonReader \<Rightarrow> JsonReader option" where
  "add_elements item index [] st = Some st"
| "add_elements item index (v # arr) st =
     (case add_child item (to_string_int (sint index)) v st of
        None \<Rightarrow> None
      | Some st1 \<Rightarrow> add_elements item (index + 1) arr st1)"

definition add_children_to_item :: "ptr \<Rightarrow> element \<Rightarrow> JsonReader \<Rightarrow> JsonReader option" where
  "add_children_to_item item el st =
     (case el of
        OBJECT obj \<Rightarrow> add_members item obj st
      | ARRAY arr \<Rightarrow> add_elements item 0 arr st
      | _ \<Rightarrow> Some st)"

section \<open>Expansion of a pending item\<close>

text \<open>
  The slot \<open>on_treeWidget_itemExpanded\<close>. \<open>itemElementMap.value(item)\<close> copies the stored
  handle; \<open>add_children_to_item\<close> then reads through it (its type, its members or elements),
  which is where the document it points into must still be the one the parser holds.
\<close>

definition on_treeWidget_itemExpanded :: "ptr \<Rightarrow> JsonReader \<Rightarrow> JsonReader option" where
  "on_treeWidget_itemExpanded item st =
     (case itemElementMap st item of
        None \<Rightarrow> Some st
      | Some element \<Rightarrow>
          (case heap st item of
             None \<Rightarrow> None
           | Some it \<Rightarrow>
               (case (case children it of
                        [c] \<Rightarrow>
                          (case heap st c of
                             None \<Rightarrow> None
                           | Some ct \<Rightarrow>
                               if text0 ct = [] then delete_takeChild0 item st else Some st)
                      | _ \<Rightarrow> Some st) of
                  None \<Rightarrow> None
                | Some st1 \<Rightarrow>
                    (case deref st1 element of
                       None \<Rightarrow> None
                     | Some el \<Rightarrow>
                         (case add_children_to_item item el st1 of
                            None \<Rightarrow> None
                          | Some st2 \<Rightarrow>
                              Some (st2\<lparr>itemElementMap :=
                                          (itemElementMap st2)(item := None)\<rparr>))))))"

section \<open>Export\<close>

text \<open>
  \<open>copy_recursive\<close>: the text of the item, then the lists of its children in order. The
  loop over the children is the recursion of \<open>copy_items\<close> on the rest of the list.
\<close>

partial_function (option) copy_items ::
  "(ptr \<rightharpoonup> QTreeWidgetItem) \<Rightarrow> ptr list \<Rightarrow> string list option" where
  "copy_items h items =
     (case items of
        [] \<Rightarrow> Some []
      | item # rest \<Rightarrow>
          (case h item of
             None \<Rightarrow> None
           | Some it \<Rightarrow>
               Option.bind (copy_items h (children it)) (\<lambda>childPairs.
               Option.bind (copy_items h rest) (\<lambda>pairs.
               Some ((text0 it # childPairs) @ pairs)))))"

declare copy_items.simps [code]

definition copy_recursive :: "ptr \<Rightarrow> JsonReader \<Rightarrow> string list option" where
  "copy_recursive item st = copy_items (heap st) [item]"

section \<open>The tree search\<close>

text \<open>
  \<open>QString::contains(str, cs)\<close>: \<open>str\<close> occurs in the text as a contiguous piece; the empty
  string occurs in every text. Without case sensitivity both sides are case-folded first;
  the model folds the letters \<open>A\<close> to \<open>Z\<close>.
\<close>

definition foldCase :: "char \<Rightarrow> char" where
  "foldCase c =
     (let n = (of_char c :: nat) in if 65 \<le> n \<and> n \<le> 90 then char_of (n + 32) else c)"

fun startsWith :: "string \<Rightarrow> string \<Rightarrow> bool" where
  "startsWith s [] = True"
| "startsWith [] (c # str) = False"
| "startsWith (x # s) (c # str) = (x = c \<and> startsWith s str)"

fun occurs_in :: "string \<Rightarrow> string \<Rightarrow> bool" where
  "occurs_in str [] = (str = [])"
| "occurs_in str (x # s) = (startsWith (x # s) str \<or> occurs_in str s)"

definition QString_contains :: "string \<Rightarrow> string \<Rightarrow> bool \<Rightarrow> bool" where
  "QString_contains s str caseSensitive =
     (if caseSensitive then occurs_in str s else occurs_in (map foldCase str) (map foldCase s))"

definition clearSelection :: "JsonReader \<Rightarrow> JsonReader" where
  "clearSelection st =
     st\<lparr>heap := (\<lambda>a. map_option (\<lambda>it. it\<lparr>selected := False\<rparr>) (heap st a))\<rparr>"

definition setSelected :: "ptr \<Rightarrow> JsonReader \<Rightarrow> JsonReader option" where
  "setSelected item st =
     (case heap st item of
        None \<Rightarrow> None
      | Some it \<Rightarrow> Some (st\<lparr>heap := (heap st)(item \<mapsto> it\<lparr>selected := True\<rparr>)\<rparr>))"

text \<open>
  The loop \<open>while (parent != nullptr) { parent->setExpanded(true); parent = parent->parent(); }\<close>.
\<close>

partial_function (option) expand_parents :: "ptr option \<Rightarrow> JsonReader \<Rightarrow> JsonReader option" where
  "expand_parents p st =
     (case p of
        None \<Rightarrow> Some st
      | Some a \<Rightarrow>
          (case heap st a of
             None \<Rightarrow> None
           | Some it \<Rightarrow>
               expand_parents (parent it) (st\<lparr>heap := (heap st)(a \<mapsto> it\<lparr>expanded := True\<rparr>)\<rparr>)))"

declare expand_parents.simps [code]

text \<open>The body of the branch of \<open>searchTree\<close> taken when the text of \<open>current\<close> matches.\<close>

definition select_match :: "ptr \<Rightarrow> JsonReader \<Rightarrow> JsonReader option" where
  "select_match current st =
     (case setSelected current (clearSelection st) of
        None \<Rightarrow> None
      | Some st1 \<Rightarrow>
          (case heap st1 current of
             None \<Rightarrow> None
           | Some it \<Rightarrow>
               (case expand_parents (parent it) st1 of
                  None \<Rightarrow> None
                | Some st2 \<Rightarrow> Some (st2\<lparr>scrolledTo := Some current, lastMatch := Some current\<rparr>))))"

text \<open>
  The \<open>while\<close> loop of \<open>searchTree\<close>, on the queue, the flag \<open>started\<close> and the case
  sensitivity read before the loop. The result is the returned \<open>bool\<close> and the state.
\<close>

partial_function (option) searchTree_loop ::
  "string \<Rightarrow> bool \<Rightarrow> ptr list \<Rightarrow> bool \<Rightarrow> JsonReader \<Rightarrow> (bool \<times> JsonReader) option" where
  "searchTree_loop searchText cs queue started st =
     (case queue of
        [] \<Rightarrow> Some (False, st)
      | current # rest \<Rightarrow>
          (case heap st current of
             None \<Rightarrow> None
           | Some it \<Rightarrow>
               if started \<and> QString_contains (text0 it) searchText cs then
                 (case select_match current st of
                    None \<Rightarrow> None
                  | Some st1 \<Rightarrow> Some (True, st1))
               else
                 (case on_treeWidget_itemExpanded current st of
                    None \<Rightarrow> None
                  | Some st1 \<Rightarrow>
                      (case heap st1 current of
                         None \<Rightarrow> None
                       | Some it1 \<Rightarrow>
                           searchTree_loop searchText cs (rest @ children it1)
                             (started \<or> lastMatch st = Some current) st1))))"

declare searchTree_loop.simps [code]

definition searchTree ::
  "ptr \<Rightarrow> string \<Rightarrow> bool \<Rightarrow> bool \<Rightarrow> JsonReader \<Rightarrow> (bool \<times> JsonReader) option" where
  "searchTree item searchText startFromCurrent searchArrays st =
     searchTree_loop searchText (radioCapital st) [item] (\<not> startFromCurrent) st"

section \<open>The slots\<close>

text \<open>
  The outcome of the file dialog and of \<open>parser.load\<close>: the dialog was cancelled, the file
  could not be read (\<open>load\<close> returns before it parses, the document of the parser is
  untouched), the parser failed on the bytes it read, or the document was parsed. The two
  errors come with the text printed for the error code. In the last two cases the parser
  has written over its document: \<open>parser_doc\<close> moves on, and the handles that
  \<open>itemElementMap\<close> still holds for items of earlier files point into a document that is
  gone.
\<close>

datatype load_result = Cancelled | ReadError string | ParseError string | Parsed element

definition on_loadBtn_clicked :: "load_result \<Rightarrow> JsonReader \<Rightarrow> JsonReader option" where
  "on_loadBtn_clicked r st =
     (case r of
        Cancelled \<Rightarrow> Some st
      | ReadError e \<Rightarrow> Some (qInfo (''Error:  '' @ e) st)
      | ParseError e \<Rightarrow> Some (qInfo (''Error:  '' @ e) (st\<lparr>parser_doc := Suc (parser_doc st)\<rparr>))
      | Parsed doc \<Rightarrow>
          (let (root, st1) = new_QTreeWidgetItem [] (st\<lparr>parser_doc := Suc (parser_doc st)\<rparr>) in
           case add_children_to_item root doc st1 of
             None \<Rightarrow> None
           | Some st2 \<Rightarrow> Some (st2\<lparr>topLevelItems := root # topLevelItems st2\<rparr>)))"

text \<open>The loop of \<open>on_textEdit_textChanged\<close> over the top-level items.\<close>

fun search_top_level :: "string \<Rightarrow> ptr list \<Rightarrow> JsonReader \<Rightarrow> JsonReader option" where
  "search_top_level searchText [] st = Some (qInfo ''Search text not found'' st)"
| "search_top_level searchText (startItem # items) st =
     (case searchTree startItem searchText False True st of
        None \<Rightarrow> None
      | Some (found, st1) \<Rightarrow>
          if found then Some (st1\<lparr>lastSearchText := searchText\<rparr>)
          else search_top_level searchText items st1)"

definition on_textEdit_textChanged :: "JsonReader \<Rightarrow> JsonReader option" where
  "on_textEdit_textChanged st =
     (let searchText = textEdit st in
      if searchText = [] then Some st
      else
        (case currentItem st of
           None \<Rightarrow> search_top_level searchText (topLevelItems st) st
         | Some startItem \<Rightarrow>
             (case searchTree startItem searchText False True st of
                None \<Rightarrow> None
              | Some (found, st1) \<Rightarrow>
                  if found then Some (st1\<lparr>lastSearchText := searchText\<rparr>)
                  else Some (qInfo ''Search text not found'' st1))))"

definition on_radioCapital_toggled :: "bool \<Rightarrow> JsonReader \<Rightarrow> JsonReader option" where
  "on_radioCapital_toggled checked st =
     (if textEdit st \<noteq> [] then on_textEdit_textChanged st else Some st)"

text \<open>The loop of \<open>on_searchNextBtn_clicked\<close> over the top-level items.\<close>

fun next_top_level :: "string \<Rightarrow> ptr list \<Rightarrow> bool \<Rightarrow> JsonReader \<Rightarrow> JsonReader option" where
  "next_top_level searchText [] pastCurrentMatch st =
     Some (qInfo ''No further matches found'' st)"
| "next_top_level searchText (startItem # items) pastCurrentMatch st =
     (case searchTree startItem searchText (\<not> pastCurrentMatch) False st of
        None \<Rightarrow> None
      | Some (found, st1) \<Rightarrow>
          if found then
            (if pastCurrentMatch then Some st1
             else if lastMatch st1 = Some startItem then next_top_level searchText items True st1
             else next_top_level searchText items pastCurrentMatch st1)
          else next_top_level searchText items pastCurrentMatch st1)"

definition on_searchNextBtn_clicked :: "JsonReader \<Rightarrow> JsonReader option" where
  "on_searchNextBtn_clicked st =
     (let searchText = textEdit st in
      if searchText = [] \<or> searchText \<noteq> lastSearchText st then Some st
      else next_top_level searchText (topLevelItems st) (lastMatch st = None) st)"

section \<open>Sessions\<close>

text \<open>
  What the user does, one event at a time: load a file, expand an item of the tree (the
  view marks it expanded and emits \<open>itemExpanded\<close>), make an item current, edit the query,
  toggle the radio button, press the search-next button. \<open>None\<close>: the event is not possible
  in the state, the slot does not return, or the slot reads a handle whose document is
  gone.
\<close>

datatype event =
    Load load_result
  | Expand ptr
  | SetCurrent "ptr option"
  | EditText string
  | Toggle bool
  | SearchNext

fun step :: "event \<Rightarrow> JsonReader \<Rightarrow> JsonReader option" where
  "step (Load r) st = on_loadBtn_clicked r st"
| "step (Expand item) st =
     (case heap st item of
        None \<Rightarrow> None
      | Some it \<Rightarrow>
          on_treeWidget_itemExpanded item
            (st\<lparr>heap := (heap st)(item \<mapsto> it\<lparr>expanded := True\<rparr>)\<rparr>))"
| "step (SetCurrent c) st =
     (case c of
        None \<Rightarrow> Some (st\<lparr>currentItem := None\<rparr>)
      | Some item \<Rightarrow>
          (case heap st item of
             None \<Rightarrow> None
           | Some it \<Rightarrow> Some (st\<lparr>currentItem := Some item\<rparr>)))"
| "step (EditText s) st = on_textEdit_textChanged (st\<lparr>textEdit := s\<rparr>)"
| "step (Toggle checked) st = on_radioCapital_toggled checked (st\<lparr>radioCapital := checked\<rparr>)"
| "step SearchNext st = on_searchNextBtn_clicked st"

fun run :: "event list \<Rightarrow> JsonReader \<Rightarrow> JsonReader option" where
  "run [] st = Some st"
| "run (e # es) st =
     (case step e st of
        None \<Rightarrow> None
      | Some st1 \<Rightarrow> run es st1)"

section \<open>Reading decimal text back\<close>

text \<open>
  The value a text of decimal digits denotes. It states what the texts of \<open>std::to_string\<close>
  mean.
\<close>

definition digit_value :: "char \<Rightarrow> nat" where
  "digit_value c = of_char c - 48"

definition nat_of_decimal :: "string \<Rightarrow> nat" where
  "nat_of_decimal s = foldl (\<lambda>a c. 10 * a + digit_value c) 0 s"

text \<open>
  \<open>decimal s n\<close>: the text \<open>s\<close> is the decimal numeral of \<open>n\<close>, digits only and without a
  leading zero. \<open>digits6 s n\<close>: \<open>s\<close> is \<open>n\<close> written with exactly six digits. \<open>nearest_even
  num den n\<close>: \<open>n\<close> is the integer nearest to \<open>num / den\<close>, the even one when two are equally
  near. \<open>millionths d\<close>: the magnitude of \<open>d\<close> times \<open>10^6\<close>, as a numerator and a denominator.
\<close>

definition is_digit :: "char \<Rightarrow> bool" where
  "is_digit c \<longleftrightarrow> c \<in> set ''0123456789''"

definition decimal :: "string \<Rightarrow> nat \<Rightarrow> bool" where
  "decimal s n \<longleftrightarrow>
     s \<noteq> [] \<and> list_all is_digit s \<and> (s = ''0'' \<or> hd s \<noteq> CHR ''0'') \<and> nat_of_decimal s = n"

definition digits6 :: "string \<Rightarrow> nat \<Rightarrow> bool" where
  "digits6 s n \<longleftrightarrow> length s = 6 \<and> list_all is_digit s \<and> nat_of_decimal s = n"

definition nearest_even :: "nat \<Rightarrow> nat \<Rightarrow> nat \<Rightarrow> bool" where
  "nearest_even num den n \<longleftrightarrow>
     2 * \<bar>int n * int den - int num\<bar> \<le> int den
     \<and> (2 * \<bar>int n * int den - int num\<bar> = int den \<longrightarrow> even n)"

definition millionths :: "double \<Rightarrow> nat \<times> nat" where
  "millionths d =
     (if 0 \<le> exponent d then (mantissa d * 2 ^ nat (exponent d) * 1000000, 1)
      else (mantissa d * 1000000, 2 ^ nat (- exponent d)))"

section \<open>Example states\<close>

definition item0 ::
  "string \<Rightarrow> QColor option \<Rightarrow> ptr list \<Rightarrow> ptr option \<Rightarrow> QTreeWidgetItem" where
  "item0 s c cs p =
     \<lparr>text0 = s, foreground = c, children = cs, parent = p, selected = False,
      expanded = False\<rparr>"

text \<open>The state after loading the document \<open>{"k": {"x": true}}\<close>: the item 1 is pending.\<close>

definition example_doc :: element where
  "example_doc = OBJECT [(''k'', OBJECT [(''x'', BOOL True)])]"

definition example_pending :: JsonReader where
  "example_pending =
     \<lparr>heap = [0 \<mapsto> item0 [] None [1] None,
              1 \<mapsto> item0 ''k: OBJECT'' (Some (QColor 48 186 143)) [2] (Some 0),
              2 \<mapsto> item0 [] None [] (Some 1)],
      next_ptr = 3, topLevelItems = [0], currentItem = None,
      scrolledTo = None, textEdit = [], radioCapital = False, lastSearchText = [],
      lastMatch = None, itemElementMap = [1 \<mapsto> (1, OBJECT [(''x'', BOOL True)])],
      messages = [], decimal_point = ''.'', parser_doc = 1\<rparr>"

text \<open>The same tree after the item 1 was expanded.\<close>

definition example_expanded :: JsonReader where
  "example_expanded =
     \<lparr>heap = [0 \<mapsto> item0 [] None [1] None,
              1 \<mapsto> item0 ''k: OBJECT'' (Some (QColor 48 186 143)) [3] (Some 0),
              3 \<mapsto> item0 ''x: true'' (Some (QColor 255 0 255)) [] (Some 1)],
      next_ptr = 4, topLevelItems = [0], currentItem = None,
      scrolledTo = None, textEdit = [], radioCapital = False, lastSearchText = [],
      lastMatch = None, itemElementMap = Map.empty, messages = [],
      decimal_point = ''.'', parser_doc = 1\<rparr>"

section \<open>The tree a state denotes\<close>

text \<open>
  The display tree with the items still to be created. A node is the invisible root of the
  tree widget (\<open>Top\<close>), an item that is not pending (\<open>Real\<close>, with its address), a pending
  item (\<open>Pending\<close>, with its address and the address of its placeholder), or an item that
  the expansion of a pending item will create (\<open>Virtual\<close>).
\<close>

datatype status = Top | Real ptr | Pending ptr ptr | Virtual

datatype vtree = VNode (vstatus: status) (vlabel: string) (vkids: "vtree list")

fun status_addr :: "status \<Rightarrow> ptr option" where
  "status_addr Top = None"
| "status_addr (Real a) = Some a"
| "status_addr (Pending a p) = Some a"
| "status_addr Virtual = None"

definition vaddr :: "vtree \<Rightarrow> ptr option" where
  "vaddr t = status_addr (vstatus t)"

datatype ltree = LNode (llabel: string) (lkids: "ltree list")

fun erase :: "vtree \<Rightarrow> ltree" where
  "erase (VNode s l ts) = LNode l (map erase ts)"

definition array_keys :: "nat \<Rightarrow> string list" where
  "array_keys n = map (\<lambda>k. to_string_int (sint (word_of_nat k :: 32 word))) [0..<n]"

fun entries :: "element \<Rightarrow> (string \<times> element) list" where
  "entries (OBJECT obj) = obj"
| "entries (ARRAY arr) = zip (array_keys (length arr)) arr"
| "entries _ = []"

definition label_of :: "string \<Rightarrow> string \<Rightarrow> element \<Rightarrow> string" where
  "label_of dp key v = key @ '': '' @ dvalue (get_json_element_display dp v)"

lemma entries_size: "(k, v') \<in> set (entries v) \<Longrightarrow> size v' < size v"
proof (cases v)
  case (ARRAY arr)
  assume "(k, v') \<in> set (entries v)"
  with ARRAY have "v' \<in> set arr" by (auto dest: set_zip_rightD)
  then have "size v' \<le> size_list size arr" by (rule size_list_estimation') simp
  with ARRAY show ?thesis by simp
next
  case (OBJECT obj)
  assume "(k, v') \<in> set (entries v)"
  with OBJECT have "(k, v') \<in> set obj" by simp
  then have "size v' \<le> size_list (size_prod (\<lambda>x. 0) size) obj"
    by (rule size_list_estimation') simp
  with OBJECT show ?thesis by simp
qed auto

function virtual :: "string \<Rightarrow> string \<times> element \<Rightarrow> vtree" where
  "virtual dp (key, v) = VNode Virtual (label_of dp key v) (map (virtual dp) (entries v))"
  by pat_completeness auto
termination
  by (relation "measure (\<lambda>(dp, k, v). size v)") (auto simp: entries_size)

fun materialized :: "string \<Rightarrow> ptr \<Rightarrow> (string \<times> element) list \<Rightarrow> vtree list" where
  "materialized dp n [] = []"
| "materialized dp n ((key, v) # es) =
     (if is_container v
      then VNode (Pending n (Suc n)) (label_of dp key v) (map (virtual dp) (entries v))
             # materialized dp (Suc (Suc n)) es
      else VNode (Real n) (label_of dp key v) [] # materialized dp (Suc n) es)"

fun span :: "(string \<times> element) list \<Rightarrow> nat" where
  "span [] = 0"
| "span ((key, v) # es) = (if is_container v then 2 else 1) + span es"

fun reprv ::
  "string \<Rightarrow> (ptr \<rightharpoonup> QTreeWidgetItem) \<Rightarrow> (ptr \<rightharpoonup> element) \<Rightarrow> ptr option \<Rightarrow> vtree \<Rightarrow> bool" where
  "reprv dp h r par (VNode (Real a) l ts) =
     (case h a of
        None \<Rightarrow> False
      | Some it \<Rightarrow>
          text0 it = l \<and> parent it = par \<and> r a = None
          \<and> map Some (children it) = map vaddr ts
          \<and> list_all (\<lambda>t. vlabel t \<noteq> [] \<and> reprv dp h r (Some a) t) ts)"
| "reprv dp h r par (VNode (Pending a p) l ts) =
     (case h a of
        None \<Rightarrow> False
      | Some it \<Rightarrow>
          text0 it = l \<and> parent it = par \<and> children it = [p]
          \<and> (case h p of
                None \<Rightarrow> False
              | Some pt \<Rightarrow> text0 pt = [] \<and> children pt = [] \<and> parent pt = Some a \<and> r p = None)
          \<and> (case r a of
                None \<Rightarrow> False
              | Some el \<Rightarrow> is_container el \<and> ts = map (virtual dp) (entries el)))"
| "reprv dp h r par (VNode Top l ts) =
     list_all (\<lambda>t. vaddr t \<noteq> None \<and> reprv dp h r None t) ts"
| "reprv dp h r par (VNode Virtual l ts) = False"

definition shape :: "QTreeWidgetItem \<Rightarrow> string \<times> ptr list \<times> ptr option" where
  "shape it = (text0 it, children it, parent it)"

fun fp :: "vtree \<Rightarrow> ptr list" where
  "fp (VNode (Real a) l ts) = a # concat (map fp ts)"
| "fp (VNode (Pending a p) l ts) = a # p # concat (map fp ts)"
| "fp (VNode Top l ts) = concat (map fp ts)"
| "fp (VNode Virtual l ts) = concat (map fp ts)"

fun nodes :: "vtree \<Rightarrow> ptr list" where
  "nodes (VNode (Real a) l ts) = a # concat (map nodes ts)"
| "nodes (VNode (Pending a p) l ts) = a # concat (map nodes ts)"
| "nodes (VNode Top l ts) = concat (map nodes ts)"
| "nodes (VNode Virtual l ts) = concat (map nodes ts)"

fun subt :: "vtree \<Rightarrow> nat list \<Rightarrow> vtree option" where
  "subt t [] = Some t"
| "subt t (i # p) = (if i < length (vkids t) then subt (vkids t ! i) p else None)"

fun substt :: "vtree \<Rightarrow> nat list \<Rightarrow> vtree \<Rightarrow> vtree" where
  "substt t [] u = u"
| "substt t (i # p) u =
     (if i < length (vkids t)
      then VNode (vstatus t) (vlabel t) ((vkids t)[i := substt (vkids t ! i) p u])
      else t)"

fun child_addrs :: "ptr \<Rightarrow> (string \<times> element) list \<Rightarrow> ptr list" where
  "child_addrs n [] = []"
| "child_addrs n ((key, v) # es) =
     n # child_addrs (if is_container v then Suc (Suc n) else Suc n) es"

definition has_placeholder :: "(ptr \<rightharpoonup> QTreeWidgetItem) \<Rightarrow> ptr \<Rightarrow> bool" where
  "has_placeholder h a =
     (case h a of
        None \<Rightarrow> False
      | Some it \<Rightarrow>
          (case children it of
             [p] \<Rightarrow> (case h p of None \<Rightarrow> False | Some pt \<Rightarrow> text0 pt = [])
           | _ \<Rightarrow> False))"

definition flagged :: "JsonReader \<Rightarrow> JsonReader \<Rightarrow> bool" where
  "flagged st st' \<longleftrightarrow>
     (\<exists>h'. st' = st\<lparr>heap := h'\<rparr>
        \<and> (\<forall>b. map_option shape (h' b) = map_option shape (heap st b)))"

definition kept :: "JsonReader \<Rightarrow> JsonReader \<Rightarrow> bool" where
  "kept st st' \<longleftrightarrow>
     next_ptr st \<le> next_ptr st'
     \<and> (\<forall>b < next_ptr st.
          case heap st' b of
            None \<Rightarrow> True
          | Some it' \<Rightarrow>
              (case heap st b of
                 None \<Rightarrow> False
               | Some it \<Rightarrow> selected it' = selected it \<and> expanded it' = expanded it))"

definition grows :: "JsonReader \<Rightarrow> JsonReader \<Rightarrow> bool" where
  "grows st st' \<longleftrightarrow>
     next_ptr st \<le> next_ptr st'
     \<and> (\<forall>b < next_ptr st.
          itemElementMap st' b \<noteq> None \<longrightarrow> itemElementMap st' b = itemElementMap st b)"

text \<open>
  \<open>wf_tree\<close>: \<open>T\<close> is the display tree of the state, with the top-level items as the
  children of its root; the allocated items are the items of \<open>T\<close> and the placeholders of
  its pending items; the keys of \<open>itemElementMap\<close> are allocated; a stored query comes with
  a last match, which is an item of \<open>T\<close>. A well-formed state (\<open>wf_state\<close>) is one where,
  moreover, every handle in \<open>itemElementMap\<close> points into the document the parser holds.
\<close>

definition wf_tree :: "JsonReader \<Rightarrow> vtree \<Rightarrow> bool" where
  "wf_tree st T \<longleftrightarrow>
     vstatus T = Top
     \<and> map Some (topLevelItems st) = map vaddr (vkids T)
     \<and> reprv (decimal_point st) (heap st) (registry st) None T
     \<and> distinct (fp T)
     \<and> (\<forall>a. heap st a \<noteq> None \<longleftrightarrow> a \<in> set (fp T))
     \<and> (\<forall>a. itemElementMap st a \<noteq> None \<longrightarrow> heap st a \<noteq> None)
     \<and> (\<forall>a. heap st a \<noteq> None \<longrightarrow> a < next_ptr st)
     \<and> (lastMatch st = None \<longrightarrow> lastSearchText st = [])
     \<and> (\<forall>m. lastMatch st = Some m \<longrightarrow> m \<in> set (nodes T))"

definition wf_state :: "JsonReader \<Rightarrow> vtree \<Rightarrow> bool" where
  "wf_state st T \<longleftrightarrow> wf_tree st T \<and> fresh st"

definition child_item ::
  "string \<Rightarrow> ptr \<Rightarrow> string \<Rightarrow> element \<Rightarrow> ptr \<Rightarrow> QTreeWidgetItem" where
  "child_item dp item key v n =
     \<lparr>text0 = label_of dp key v, foreground = Some (color (get_json_element_display dp v)),
      children = (if is_container v then [Suc n] else []), parent = Some item,
      selected = False, expanded = False\<rparr>"

definition dummy_item :: "ptr \<Rightarrow> QTreeWidgetItem" where
  "dummy_item n =
     \<lparr>text0 = [], foreground = None, children = [], parent = Some n,
      selected = False, expanded = False\<rparr>"


definition grown :: "ptr \<Rightarrow> (string \<times> element) list \<Rightarrow> JsonReader \<Rightarrow> JsonReader \<Rightarrow> bool" where
  "grown item es st st' \<longleftrightarrow>
     st' = st\<lparr>heap := heap st', next_ptr := next_ptr st + span es,
              itemElementMap := itemElementMap st'\<rparr>
     \<and> (\<exists>it. heap st item = Some it
           \<and> heap st' item = Some (it\<lparr>children := children it @ child_addrs (next_ptr st) es\<rparr>))
     \<and> (\<forall>b. b \<noteq> item \<longrightarrow> b < next_ptr st \<or> next_ptr st + span es \<le> b \<longrightarrow> heap st' b = heap st b)
     \<and> (\<forall>b. b < next_ptr st \<or> next_ptr st + span es \<le> b
           \<longrightarrow> itemElementMap st' b = itemElementMap st b)
     \<and> (\<forall>b. next_ptr st \<le> b \<longrightarrow> b < next_ptr st + span es \<longrightarrow> itemElementMap st' b \<noteq> None
           \<longrightarrow> map_option fst (itemElementMap st' b) = Some (parser_doc st))
     \<and> list_all (reprv (decimal_point st) (heap st') (registry st') (Some item))
          (materialized (decimal_point st) (next_ptr st) es)"


section \<open>Breadth-first order\<close>

text \<open>
  The search on the tree of labels: the queue holds the nodes with their paths from the
  root, \<open>lm\<close> is the path of the last match. \<open>bfs\<close> is the path of the node the search
  returns, \<open>bfs_order\<close> the order in which the nodes leave the queue, \<open>level d\<close> the nodes \<open>d\<close>
  levels below a node, from left to right.
\<close>

type_synonym path = "nat list"

fun lchildren :: "path \<times> ltree \<Rightarrow> (path \<times> ltree) list" where
  "lchildren (p, t) = map (\<lambda>i. (p @ [i], lkids t ! i)) [0..<length (lkids t)]"

fun tsize :: "ltree \<Rightarrow> nat" where
  "tsize (LNode l ks) = Suc (sum_list (map tsize ks))"

definition qsize :: "(path \<times> ltree) list \<Rightarrow> nat" where
  "qsize q = sum_list (map (tsize \<circ> snd) q)"

lemma qsize_simps [simp]:
  "qsize [] = 0" "qsize (x # q) = tsize (snd x) + qsize q" "qsize (q @ r) = qsize q + qsize r"
  by (simp_all add: qsize_def)

lemma map_nth_f: "map (\<lambda>i. f (xs ! i)) [0..<length xs] = map f xs"
proof -
  have "map (\<lambda>i. f (xs ! i)) [0..<length xs] = map f (map (\<lambda>i. xs ! i) [0..<length xs])"
    by (simp add: comp_def)
  then show ?thesis by (simp only: map_nth)
qed

lemma qsize_lchildren: "Suc (qsize (lchildren x)) = tsize (snd x)"
proof -
  obtain p t where x: "x = (p, t)" by (cases x)
  obtain l ks where t: "t = LNode l ks" by (cases t)
  show ?thesis by (simp add: x t qsize_def comp_def map_nth_f)
qed

function bfs ::
  "(string \<Rightarrow> bool) \<Rightarrow> path option \<Rightarrow> (path \<times> ltree) list \<Rightarrow> bool \<Rightarrow> path option" where
  "bfs m lm [] started = None"
| "bfs m lm ((p, t) # q) started =
     (if started \<and> m (llabel t) then Some p
      else bfs m lm (q @ lchildren (p, t)) (started \<or> lm = Some p))"
  by pat_completeness auto
termination
proof (relation "measure (\<lambda>(m, lm, q, started). qsize q)")
  fix p t and q :: "(path \<times> ltree) list"
  have "Suc (qsize (lchildren (p, t))) = tsize t" using qsize_lchildren [of "(p, t)"] by simp
  then have "qsize (q @ lchildren (p, t)) < qsize ((p, t) # q)" by simp
  then show "\<And>m lm started. ((m, lm, q @ lchildren (p, t), started \<or> lm = Some p), (m, lm, (p, t) # q, started))
      \<in> measure (\<lambda>(m, lm, q, started). qsize q)" by simp
qed simp

function bfs_order :: "(path \<times> ltree) list \<Rightarrow> (path \<times> ltree) list" where
  "bfs_order [] = []"
| "bfs_order (x # q) = x # bfs_order (q @ lchildren x)"
  by pat_completeness auto
termination
proof (relation "measure qsize")
  fix x and q :: "(path \<times> ltree) list"
  have "qsize (q @ lchildren x) < qsize (x # q)" using qsize_lchildren [of x] by simp
  then show "(q @ lchildren x, x # q) \<in> measure qsize" by simp
qed simp


fun subl :: "ltree \<Rightarrow> path \<Rightarrow> ltree option" where
  "subl t [] = Some t"
| "subl t (i # p) = (if i < length (lkids t) then subl (lkids t ! i) p else None)"

definition matches :: "string \<Rightarrow> bool \<Rightarrow> path \<times> ltree \<Rightarrow> bool" where
  "matches searchText cs x = QString_contains (llabel (snd x)) searchText cs"


definition next_level :: "(path \<times> ltree) list \<Rightarrow> (path \<times> ltree) list" where
  "next_level q = concat (map lchildren q)"


section \<open>The search on a represented tree\<close>

definition addr_pres :: "vtree \<Rightarrow> vtree \<Rightarrow> bool" where
  "addr_pres T T' \<longleftrightarrow>
     (\<forall>q w b. subt T q = Some w \<longrightarrow> vaddr w = Some b
        \<longrightarrow> (\<exists>w'. subt T' q = Some w' \<and> vaddr w' = Some b))"

definition qrel :: "vtree \<Rightarrow> ptr list \<Rightarrow> (path \<times> ltree) list \<Rightarrow> bool" where
  "qrel T queue aq \<longleftrightarrow>
     list_all2 (\<lambda>a x. (\<exists>w. subt T (fst x) = Some w \<and> vaddr w = Some a)
                      \<and> subl (erase T) (fst x) = Some (snd x)) queue aq"




definition example_root :: JsonReader where
  "example_root = (initial ''.'')\<lparr>heap := [0 \<mapsto> item0 [] None [] None], next_ptr := 1\<rparr>"







definition children_texts :: "JsonReader \<Rightarrow> ptr \<Rightarrow> string option list option" where
  "children_texts st a =
     (case heap st a of
        None \<Rightarrow> None
      | Some it \<Rightarrow> Some (map (\<lambda>c. map_option text0 (heap st c)) (children it)))"

definition entry_labels :: "string \<Rightarrow> element \<Rightarrow> string option list" where
  "entry_labels dp el = map (\<lambda>(key, v). Some (label_of dp key v)) (entries el)"

definition match_recorded :: "string \<Rightarrow> bool \<Rightarrow> JsonReader \<Rightarrow> bool" where
  "match_recorded searchText cs st \<longleftrightarrow>
     (case lastMatch st of
        None \<Rightarrow> False
      | Some b \<Rightarrow>
          (case heap st b of
             None \<Rightarrow> False
           | Some it \<Rightarrow> QString_contains (text0 it) searchText cs))"


definition query_kept :: "JsonReader \<Rightarrow> JsonReader \<Rightarrow> bool" where
  "query_kept st st' \<longleftrightarrow>
     textEdit st' = textEdit st \<and> radioCapital st' = radioCapital st
     \<and> lastSearchText st' = lastSearchText st \<and> lastMatch st' = lastMatch st
     \<and> messages st' = messages st"

text \<open>
  A finite tree of texts, and what it is for an item of the store to be the root of one:
  the item is allocated, has the text of the root, and its children are, in order, the
  roots of the subtrees. \<open>preorder\<close> lists the texts depth-first, a node before its children.
  \<open>shown\<close> is the tree of texts the items of a display tree make up now: a pending item
  has its placeholder as its only child.
\<close>

datatype dtree = DNode (dlabel: string) (dkids: "dtree list")

fun is_dtree :: "(ptr \<rightharpoonup> QTreeWidgetItem) \<Rightarrow> ptr \<Rightarrow> dtree \<Rightarrow> bool" where
  "is_dtree h a (DNode l ks) =
     (case h a of
        None \<Rightarrow> False
      | Some it \<Rightarrow> text0 it = l \<and> list_all2 (is_dtree h) (children it) ks)"

fun preorder :: "dtree \<Rightarrow> string list" where
  "preorder (DNode l ks) = l # concat (map preorder ks)"

fun shown :: "vtree \<Rightarrow> dtree" where
  "shown (VNode (Real a) l ts) = DNode l (map shown ts)"
| "shown (VNode (Pending a ph) l ts) = DNode l [DNode [] []]"
| "shown (VNode Top l ts) = DNode l (map shown ts)"
| "shown (VNode Virtual l ts) = DNode l []"

section \<open>Evaluation of the formatter\<close>

lemma to_string_nat_small: "n < 10 \<Longrightarrow> to_string_nat n = [digit_char n]"
  by (subst to_string_nat.simps) simp

lemma to_string_nat_large:
  "\<not> n < 10 \<Longrightarrow> to_string_nat n = to_string_nat (n div 10) @ [digit_char (n mod 10)]"
  by (subst to_string_nat.simps) simp

lemmas eval_to_string =
  to_string_nat_small to_string_nat_large digit_char_def to_string_int_def
  to_string_double_def micro_units_def round_half_even_def Let_def

lemmas eval_items =
  item0_def add_children_to_item_def add_child_def new_QTreeWidgetItem_def setForeground_def
  addChild_def Let_def fun_eq_iff

lemma digit_cases:
  assumes "n mod 10 = 0 \<Longrightarrow> P" "n mod 10 = 1 \<Longrightarrow> P" "n mod 10 = 2 \<Longrightarrow> P" "n mod 10 = 3 \<Longrightarrow> P"
    "n mod 10 = 4 \<Longrightarrow> P" "n mod 10 = 5 \<Longrightarrow> P" "n mod 10 = 6 \<Longrightarrow> P" "n mod 10 = 7 \<Longrightarrow> P"
    "n mod 10 = 8 \<Longrightarrow> P" "n mod 10 = (9::nat) \<Longrightarrow> P"
  shows P
proof -
  have "n mod 10 < 10" by simp
  then have "n mod 10 = 0 \<or> n mod 10 = 1 \<or> n mod 10 = 2 \<or> n mod 10 = 3 \<or> n mod 10 = 4
      \<or> n mod 10 = 5 \<or> n mod 10 = 6 \<or> n mod 10 = 7 \<or> n mod 10 = 8 \<or> n mod 10 = 9"
    by arith
  then show P using assms by (elim disjE) simp_all
qed

lemma digit_value_digit_char: "digit_value (digit_char n) = n mod 10"
  by (rule digit_cases [of n]) (simp_all add: digit_char_def digit_value_def)

lemma nat_of_decimal_snoc: "nat_of_decimal (s @ [c]) = 10 * nat_of_decimal s + digit_value c"
  by (simp add: nat_of_decimal_def)

lemma nat_of_decimal_to_string_nat: "nat_of_decimal (to_string_nat n) = n"
proof (induction n rule: to_string_nat.induct)
  case (1 n)
  show ?case
  proof (cases "n < 10")
    case True
    then show ?thesis
      by (simp add: to_string_nat_small nat_of_decimal_def digit_value_digit_char)
  next
    case False
    with 1 have "nat_of_decimal (to_string_nat (n div 10)) = n div 10" by simp
    with False show ?thesis
      by (simp add: to_string_nat_large nat_of_decimal_snoc digit_value_digit_char)
  qed
qed

lemma to_string_nat_not_Nil: "to_string_nat n \<noteq> []"
  by (subst to_string_nat.simps) simp

lemma length_to_string_nat: "n < 10 ^ k \<Longrightarrow> 0 < k \<Longrightarrow> length (to_string_nat n) \<le> k"
proof (induction n arbitrary: k rule: to_string_nat.induct)
  case (1 n)
  show ?case
  proof (cases "n < 10")
    case True
    with 1 show ?thesis
      by (simp add: to_string_nat_small)
  next
    case False
    obtain j where k: "k = Suc j" using 1 by (cases k) auto
    with False 1 have "0 < j" by (cases j) auto
    moreover from 1 k have "n div 10 < 10 ^ j"
      by (simp add: less_mult_imp_div_less mult.commute)
    ultimately have "length (to_string_nat (n div 10)) \<le> j" using 1 False by simp
    with False k show ?thesis
      by (simp add: to_string_nat_large)
  qed
qed

lemma nat_of_decimal_zeros: "nat_of_decimal (replicate m (CHR ''0'') @ s) = nat_of_decimal s"
proof -
  have "foldl (\<lambda>a c. 10 * a + digit_value c) 0 (replicate m (CHR ''0'')) = 0"
    by (induction m) (simp_all add: digit_value_def)
  then show ?thesis by (simp add: nat_of_decimal_def)
qed

lemma replicate_numeral': "replicate (numeral k) x = x # replicate (pred_numeral k) x"
  by (simp add: numeral_eq_Suc)

lemma is_digit_digit_char: "is_digit (digit_char n)"
  by (rule digit_cases [of n]) (simp_all add: digit_char_def is_digit_def)

lemma digit_char_zero: "digit_char n = CHR ''0'' \<Longrightarrow> n mod 10 = 0"
  by (rule digit_cases [of n]) (simp_all add: digit_char_def)

lemma digits_to_string_nat: "list_all is_digit (to_string_nat n)"
proof (induction n rule: to_string_nat.induct)
  case (1 n)
  show ?case
  proof (cases "n < 10")
    case True
    then show ?thesis by (simp add: to_string_nat_small is_digit_digit_char)
  next
    case False
    with 1 show ?thesis by (simp add: to_string_nat_large is_digit_digit_char)
  qed
qed

lemma hd_to_string_nat: "0 < n \<Longrightarrow> hd (to_string_nat n) \<noteq> CHR ''0''"
proof (induction n rule: to_string_nat.induct)
  case (1 n)
  show ?case
  proof (cases "n < 10")
    case True
    with 1(2) have nz: "n mod 10 \<noteq> 0" by simp
    have "digit_char n \<noteq> CHR ''0''"
    proof
      assume "digit_char n = CHR ''0''"
      then have "n mod 10 = 0" by (rule digit_char_zero)
      with nz show False by (rule notE)
    qed
    with True show ?thesis by (simp add: to_string_nat_small)
  next
    case False
    then have "0 < n div 10" by simp
    with 1(1) False have "hd (to_string_nat (n div 10)) \<noteq> CHR ''0''" by simp
    with False show ?thesis by (simp add: to_string_nat_large to_string_nat_not_Nil)
  qed
qed

lemma decimal_to_string_nat: "decimal (to_string_nat n) n"
proof -
  have "to_string_nat n = ''0'' \<or> hd (to_string_nat n) \<noteq> CHR ''0''"
  proof (cases "n = 0")
    case True
    then show ?thesis by (simp add: to_string_nat_small digit_char_def)
  next
    case False
    then show ?thesis by (simp add: hd_to_string_nat)
  qed
  then show ?thesis
    unfolding decimal_def
    by (simp add: to_string_nat_not_Nil digits_to_string_nat nat_of_decimal_to_string_nat)
qed

lemma digits6_padded:
  assumes "n < 1000000"
  shows "digits6 (replicate (6 - length (to_string_nat n)) (CHR ''0'') @ to_string_nat n) n"
proof -
  from assms have "n < 10 ^ 6" by simp
  then have "length (to_string_nat n) \<le> 6" by (rule length_to_string_nat) simp
  then have "length (replicate (6 - length (to_string_nat n)) (CHR ''0'') @ to_string_nat n) = 6"
    by simp
  moreover have "list_all is_digit (replicate (6 - length (to_string_nat n)) (CHR ''0''))"
    by (simp add: list_all_iff is_digit_def)
  moreover have "nat_of_decimal (replicate (6 - length (to_string_nat n)) (CHR ''0'') @ to_string_nat n) = n"
    by (simp only: nat_of_decimal_zeros nat_of_decimal_to_string_nat)
  ultimately show ?thesis unfolding digits6_def by (simp add: digits_to_string_nat)
qed

lemma nearest_even_round_half_even:
  assumes "0 < den"
  shows "nearest_even num den (round_half_even num den)"
proof -
  define q where "q = num div den"
  define r where "r = num mod den"
  have num: "int num = int q * int den + int r"
    unfolding q_def r_def by (metis div_mult_mod_eq of_nat_add of_nat_mult)
  have r: "r < den" using assms by (simp add: r_def)
  show ?thesis
  proof (cases "den < 2 * r \<or> (2 * r = den \<and> odd q)")
    case True
    then have res: "round_half_even num den = q + 1"
      by (simp add: round_half_even_def q_def r_def Let_def)
    have "int (q + 1) * int den - int num = int den - int r"
      by (simp add: num algebra_simps)
    with r have d: "\<bar>int (q + 1) * int den - int num\<bar> = int den - int r" by simp
    from True r show ?thesis
      unfolding nearest_even_def res d by auto
  next
    case False
    then have res: "round_half_even num den = q"
      by (simp add: round_half_even_def q_def r_def Let_def)
    have d: "\<bar>int q * int den - int num\<bar> = int r" by (simp add: num)
    from False show ?thesis
      unfolding nearest_even_def res d by auto
  qed
qed

lemma nearest_even_micro_units:
  "nearest_even (fst (millionths d)) (snd (millionths d)) (micro_units d)"
proof (cases "0 \<le> exponent d")
  case True
  then show ?thesis by (simp add: millionths_def micro_units_def nearest_even_def)
next
  case False
  then show ?thesis
    by (simp add: millionths_def micro_units_def nearest_even_round_half_even)
qed

lemma to_string_double_shape:
  "\<exists>N ip fp. nearest_even (fst (millionths d)) (snd (millionths d)) N
      \<and> decimal ip (N div 1000000) \<and> digits6 fp (N mod 1000000)
      \<and> to_string_double point d = (if negative d then ''-'' else []) @ ip @ point @ fp"
proof -
  define N where "N = micro_units d"
  define ip where "ip = to_string_nat (N div 1000000)"
  define fp where "fp = replicate (6 - length (to_string_nat (N mod 1000000))) (CHR ''0'')
      @ to_string_nat (N mod 1000000)"
  have 1: "nearest_even (fst (millionths d)) (snd (millionths d)) N"
    unfolding N_def by (rule nearest_even_micro_units)
  have 2: "decimal ip (N div 1000000)" unfolding ip_def by (rule decimal_to_string_nat)
  have 3: "digits6 fp (N mod 1000000)" unfolding fp_def by (rule digits6_padded) simp
  have 4: "to_string_double point d = (if negative d then ''-'' else []) @ ip @ point @ fp"
    by (simp add: to_string_double_def Let_def ip_def fp_def N_def)
  from 1 2 3 4 show ?thesis by blast
qed

lemma to_string_int_shape:
  "\<exists>s. decimal s (nat \<bar>i\<bar>) \<and> to_string_int i = (if i < 0 then ''-'' @ s else s)"
proof (cases "i < 0")
  case True
  then have "nat \<bar>i\<bar> = nat (- i)" by simp
  with True decimal_to_string_nat [of "nat (- i)"] show ?thesis
    by (auto simp: to_string_int_def)
next
  case False
  then have "nat \<bar>i\<bar> = nat i" by simp
  with False decimal_to_string_nat [of "nat i"] show ?thesis
    by (auto simp: to_string_int_def)
qed

section \<open>The scalar formatting table\<close>

text \<open>
  Claim C2, as the code has it. The formatter writes an integer as its decimal numeral
  (digits only, no leading zero, no separators), after a \<open>-\<close> when it is negative. It writes
  a double with a \<open>-\<close> when the sign bit is set, then the decimal numeral of the integer
  part, the decimal point of the locale and six digits: together the magnitude in
  millionths, rounded to the nearest integer and to the even one of two equally near. The
  other values are written as the table says. So the double 1.5 is \<open>1.500000\<close> where the
  decimal point is a point and \<open>1,500000\<close> where it is a comma.
\<close>

theorem get_json_element_display_table:
  "(\<exists>s. decimal s (nat \<bar>sint i\<bar>)
        \<and> dvalue (get_json_element_display point (INT64 i)) = (if sint i < 0 then ''-'' @ s else s))
   \<and> decimal (dvalue (get_json_element_display point (UINT64 u))) (unat u)
   \<and> (\<exists>N ip fp. nearest_even (fst (millionths d)) (snd (millionths d)) N
        \<and> decimal ip (N div 1000000) \<and> digits6 fp (N mod 1000000)
        \<and> dvalue (get_json_element_display point (DOUBLE d))
            = (if negative d then ''-'' else []) @ ip @ point @ fp)
   \<and> dvalue (get_json_element_display point (STRING s)) = s
   \<and> dvalue (get_json_element_display point (BOOL b)) = (if b then ''true'' else ''false'')
   \<and> dvalue (get_json_element_display point NULL_VALUE) = ''null''
   \<and> dvalue (get_json_element_display point (ARRAY arr)) = ''ARRAY''
   \<and> dvalue (get_json_element_display point (OBJECT obj)) = ''OBJECT''
   \<and> dvalue (get_json_element_display point (INT64 7)) = ''7''
   \<and> dvalue (get_json_element_display ''.'' (DOUBLE (Double False 3 (- 1)))) = ''1.500000''
   \<and> dvalue (get_json_element_display '','' (DOUBLE (Double False 3 (- 1)))) = ''1,500000''
   \<and> dvalue (get_json_element_display point (OBJECT [])) = ''OBJECT''"
proof -
  have "\<exists>s. decimal s (nat \<bar>sint i\<bar>)
        \<and> dvalue (get_json_element_display point (INT64 i)) = (if sint i < 0 then ''-'' @ s else s)"
    using to_string_int_shape [of "sint i"] by simp
  moreover have "decimal (dvalue (get_json_element_display point (UINT64 u))) (unat u)"
    by (simp add: decimal_to_string_nat)
  moreover have "\<exists>N ip fp. nearest_even (fst (millionths d)) (snd (millionths d)) N
        \<and> decimal ip (N div 1000000) \<and> digits6 fp (N mod 1000000)
        \<and> dvalue (get_json_element_display point (DOUBLE d))
            = (if negative d then ''-'' else []) @ ip @ point @ fp"
    using to_string_double_shape [of d point] by simp
  moreover have "dvalue (get_json_element_display point (INT64 7)) = ''7''"
    by (simp add: eval_to_string)
  moreover have "dvalue (get_json_element_display ''.'' (DOUBLE (Double False 3 (- 1)))) = ''1.500000''"
    by (simp add: eval_to_string)
  moreover have "dvalue (get_json_element_display '','' (DOUBLE (Double False 3 (- 1)))) = ''1,500000''"
    by (simp add: eval_to_string)
  ultimately show ?thesis by simp
qed

theorem get_json_element_display_table_witness:
  "millionths (Double False 3 (- 7)) = (3000000, 128)
   \<and> 2 * \<bar>int 23438 * int 128 - int 3000000\<bar> = int 128
   \<and> nearest_even 3000000 128 23438
   \<and> decimal ''0'' 0 \<and> digits6 ''023438'' 23438
   \<and> dvalue (get_json_element_display ''.'' (DOUBLE (Double False 3 (- 7)))) = ''0.023438''
   \<and> (\<exists>N ip fp. nearest_even 3000000 128 N
        \<and> decimal ip (N div 1000000) \<and> digits6 fp (N mod 1000000)
        \<and> ''0.023438'' = ip @ ''.'' @ fp)
   \<and> dvalue (get_json_element_display ''.'' (DOUBLE (Double True 0 0))) = ''-0.000000''
   \<and> dvalue (get_json_element_display ''.'' (INT64 (- 7))) = ''-7''
   \<and> (\<exists>s. decimal s 7 \<and> ''-7'' = ''-'' @ s)
   \<and> dvalue (get_json_element_display ''.'' (UINT64 18446744073709551615))
       = ''18446744073709551615''"
proof -
  have m: "millionths (Double False 3 (- 7)) = (3000000, 128)" by (simp add: millionths_def)
  have e: "dvalue (get_json_element_display ''.'' (DOUBLE (Double False 3 (- 7)))) = ''0.023438''"
    "dvalue (get_json_element_display ''.'' (DOUBLE (Double True 0 0))) = ''-0.000000''"
    "dvalue (get_json_element_display ''.'' (INT64 (- 7))) = ''-7''"
    "dvalue (get_json_element_display ''.'' (UINT64 18446744073709551615))
       = ''18446744073709551615''"
    by (simp_all add: eval_to_string replicate_numeral')
  have n: "nearest_even 3000000 128 23438" "2 * \<bar>int 23438 * int 128 - int 3000000\<bar> = int 128"
    by (simp_all add: nearest_even_def)
  have d: "decimal ''0'' 0" "digits6 ''023438'' 23438"
    by (simp_all add: decimal_def digits6_def is_digit_def nat_of_decimal_def digit_value_def)
  note t = get_json_element_display_table [of "- 7" "''.''" 0 "Double False 3 (- 7)"]
  from t have "\<exists>N ip fp. nearest_even (fst (millionths (Double False 3 (- 7))))
          (snd (millionths (Double False 3 (- 7)))) N
        \<and> decimal ip (N div 1000000) \<and> digits6 fp (N mod 1000000)
        \<and> dvalue (get_json_element_display ''.'' (DOUBLE (Double False 3 (- 7))))
            = (if negative (Double False 3 (- 7)) then ''-'' else []) @ ip @ ''.'' @ fp"
    by blast
  then have x: "\<exists>N ip fp. nearest_even 3000000 128 N
        \<and> decimal ip (N div 1000000) \<and> digits6 fp (N mod 1000000)
        \<and> ''0.023438'' = ip @ ''.'' @ fp"
    unfolding m e by simp
  from t have "\<exists>s. decimal s (nat \<bar>sint (- 7 :: 64 word)\<bar>)
        \<and> dvalue (get_json_element_display ''.'' (INT64 (- 7)))
          = (if sint (- 7 :: 64 word) < 0 then ''-'' @ s else s)"
    by blast
  then have y: "\<exists>s. decimal s 7 \<and> ''-7'' = ''-'' @ s" unfolding e by simp
  from m n d e x y show ?thesis by (intro conjI)
qed

text \<open>
  Claim C2 as the specification states it fails: the text of the double 1.5 is not \<open>1.5\<close>.
\<close>

theorem double_text_counterexample:
  "dvalue (get_json_element_display ''.'' (DOUBLE (Double False 3 (- 1)))) \<noteq> ''1.5''"
  by (simp add: eval_to_string)

section \<open>Expansion twice\<close>

lemma load_example:
  "on_loadBtn_clicked (Parsed example_doc) (initial ''.'') = Some example_pending"
  by (simp add: on_loadBtn_clicked_def initial_def example_pending_def example_doc_def eval_items)

lemma expand_example: "on_treeWidget_itemExpanded 1 example_pending = Some example_expanded"
  by (simp add: on_treeWidget_itemExpanded_def example_pending_def example_expanded_def
      delete_takeChild0_def destroy.simps eval_items deref_def)

lemma expanded_not_registered:
  "on_treeWidget_itemExpanded item st = Some st1 \<Longrightarrow> itemElementMap st item \<noteq> None
   \<Longrightarrow> itemElementMap st1 item = None"
  by (auto simp: on_treeWidget_itemExpanded_def split: option.splits)

text \<open>
  Claim C6. When the expansion of an item has returned, a second expansion of the item
  returns the state as it is: the item is not in \<open>itemElementMap\<close> any more, so its
  children are the ones the first expansion left.
\<close>

theorem on_treeWidget_itemExpanded_twice:
  assumes "on_treeWidget_itemExpanded item st = Some st1"
  shows "on_treeWidget_itemExpanded item st1 = Some st1"
proof (cases "itemElementMap st item")
  case None
  with assms show ?thesis
    by (simp add: on_treeWidget_itemExpanded_def)
next
  case (Some el)
  with assms have "itemElementMap st1 item = None" by (simp add: expanded_not_registered)
  then show ?thesis by (simp add: on_treeWidget_itemExpanded_def)
qed

theorem on_treeWidget_itemExpanded_twice_witness:
  "on_treeWidget_itemExpanded 1 example_pending = Some example_expanded
   \<and> on_treeWidget_itemExpanded 1 example_expanded = Some example_expanded"
  using on_treeWidget_itemExpanded_twice [OF expand_example] expand_example by simp

section \<open>Search next with a stale query\<close>

text \<open>
  Claim C9. When the text of the text edit is empty or differs from \<open>lastSearchText\<close>,
  \<open>on_searchNextBtn_clicked\<close> returns at once: the whole state (the tree, the selection,
  \<open>lastMatch\<close>, \<open>lastSearchText\<close>, the messages) is unchanged.
\<close>

theorem on_searchNextBtn_clicked_stale:
  assumes "textEdit st = [] \<or> textEdit st \<noteq> lastSearchText st"
  shows "on_searchNextBtn_clicked st = Some st"
  using assms by (auto simp: on_searchNextBtn_clicked_def Let_def)

theorem on_searchNextBtn_clicked_stale_witness:
  "(textEdit (example_pending\<lparr>textEdit := ''k''\<rparr>) = []
      \<or> textEdit (example_pending\<lparr>textEdit := ''k''\<rparr>)
          \<noteq> lastSearchText (example_pending\<lparr>textEdit := ''k''\<rparr>))
   \<and> on_searchNextBtn_clicked (example_pending\<lparr>textEdit := ''k''\<rparr>)
       = Some (example_pending\<lparr>textEdit := ''k''\<rparr>)"
proof -
  have h: "textEdit (example_pending\<lparr>textEdit := ''k''\<rparr>) = []
      \<or> textEdit (example_pending\<lparr>textEdit := ''k''\<rparr>)
          \<noteq> lastSearchText (example_pending\<lparr>textEdit := ''k''\<rparr>)"
    by (simp add: example_pending_def)
  from on_searchNextBtn_clicked_stale [OF h] h show ?thesis by blast
qed

section \<open>Represented trees\<close>

lemma registry_heap [simp]: "registry (st\<lparr>heap := h\<rparr>) = registry st"
  by (rule ext) (simp add: registry_def)

lemma registry_next_ptr [simp]: "registry (st\<lparr>next_ptr := n\<rparr>) = registry st"
  by (rule ext) (simp add: registry_def)

lemma registry_topLevelItems [simp]: "registry (st\<lparr>topLevelItems := x\<rparr>) = registry st"
  by (rule ext) (simp add: registry_def)

lemma registry_currentItem [simp]: "registry (st\<lparr>currentItem := x\<rparr>) = registry st"
  by (rule ext) (simp add: registry_def)

lemma registry_scrolledTo [simp]: "registry (st\<lparr>scrolledTo := x\<rparr>) = registry st"
  by (rule ext) (simp add: registry_def)

lemma registry_textEdit [simp]: "registry (st\<lparr>textEdit := x\<rparr>) = registry st"
  by (rule ext) (simp add: registry_def)

lemma registry_radioCapital [simp]: "registry (st\<lparr>radioCapital := x\<rparr>) = registry st"
  by (rule ext) (simp add: registry_def)

lemma registry_lastSearchText [simp]: "registry (st\<lparr>lastSearchText := x\<rparr>) = registry st"
  by (rule ext) (simp add: registry_def)

lemma registry_lastMatch [simp]: "registry (st\<lparr>lastMatch := x\<rparr>) = registry st"
  by (rule ext) (simp add: registry_def)

lemma registry_messages [simp]: "registry (st\<lparr>messages := x\<rparr>) = registry st"
  by (rule ext) (simp add: registry_def)

lemma registry_parser_doc [simp]: "registry (st\<lparr>parser_doc := x\<rparr>) = registry st"
  by (rule ext) (simp add: registry_def)

lemma registry_itemElementMap [simp]:
  "registry (st\<lparr>itemElementMap := r\<rparr>) a = map_option snd (r a)"
  by (simp add: registry_def)

lemma registry_None [simp]: "(registry st a = None) = (itemElementMap st a = None)"
  by (simp add: registry_def)

lemma registry_eq: "itemElementMap st' b = itemElementMap st b \<Longrightarrow> registry st' b = registry st b"
  by (simp add: registry_def)

lemma registry_cong: "itemElementMap st' = itemElementMap st \<Longrightarrow> registry st' = registry st"
  by (rule ext) (simp add: registry_def)

lemma registry_fresh:
  "fresh st \<Longrightarrow> registry st a = Some el \<Longrightarrow> itemElementMap st a = Some (parser_doc st, el)"
  by (cases "itemElementMap st a") (auto simp: registry_def fresh_def)

lemma fresh_heap [simp]: "fresh (st\<lparr>heap := h\<rparr>) = fresh st"
  by (simp add: fresh_def)

lemma fresh_scrolledTo [simp]: "fresh (st\<lparr>scrolledTo := x\<rparr>) = fresh st"
  by (simp add: fresh_def)

lemma fresh_lastMatch [simp]: "fresh (st\<lparr>lastMatch := x\<rparr>) = fresh st"
  by (simp add: fresh_def)

lemma fresh_lastSearchText [simp]: "fresh (st\<lparr>lastSearchText := x\<rparr>) = fresh st"
  by (simp add: fresh_def)

lemma fresh_messages [simp]: "fresh (st\<lparr>messages := x\<rparr>) = fresh st"
  by (simp add: fresh_def)

lemma fresh_textEdit [simp]: "fresh (st\<lparr>textEdit := x\<rparr>) = fresh st"
  by (simp add: fresh_def)

lemma fresh_radioCapital [simp]: "fresh (st\<lparr>radioCapital := x\<rparr>) = fresh st"
  by (simp add: fresh_def)

lemma fresh_currentItem [simp]: "fresh (st\<lparr>currentItem := x\<rparr>) = fresh st"
  by (simp add: fresh_def)

lemma shape_eq_iff:
  "map_option shape x = map_option shape y \<longleftrightarrow>
     (case x of None \<Rightarrow> y = None
      | Some it \<Rightarrow> (\<exists>it'. y = Some it' \<and> text0 it' = text0 it \<and> children it' = children it
                        \<and> parent it' = parent it))"
  by (cases x; cases y) (auto simp: shape_def)

lemma fp_kid_subset: "t \<in> set ts \<Longrightarrow> set (fp t) \<subseteq> set (fp (VNode s l ts))"
  by (cases s) auto

lemma reprv_frame:
  assumes "\<forall>a \<in> set (fp t). map_option shape (h' a) = map_option shape (h a) \<and> r' a = r a"
  shows "reprv dp h' r' par t = reprv dp h r par t"
  using assms
proof (induction t arbitrary: par)
  case (VNode s l ts)
  have kids: "reprv dp h' r' q t = reprv dp h r q t" if "t \<in> set ts" for t q
    using VNode.IH [OF that] VNode.prems fp_kid_subset [OF that, of s l] by blast
  show ?case
  proof (cases s)
    case Top
    with kids show ?thesis by (auto simp: list_all_iff)
  next
    case (Real a)
    from VNode.prems Real have "map_option shape (h' a) = map_option shape (h a)" "r' a = r a"
      by auto
    with kids Real show ?thesis
      by (auto simp: list_all_iff shape_eq_iff split: option.splits)
  next
    case (Pending a p)
    with VNode.prems have "map_option shape (h' a) = map_option shape (h a)" "r' a = r a"
      "map_option shape (h' p) = map_option shape (h p)" "r' p = r p"
      by auto
    with Pending show ?thesis
      by (auto simp: shape_eq_iff split: option.splits)
  next
    case Virtual
    then show ?thesis by simp
  qed
qed


lemma vaddr_in_nodes: "vaddr t = Some a \<Longrightarrow> a \<in> set (nodes t)"
  by (cases t; cases "vstatus t") (auto simp: vaddr_def)

lemma vstatus_virtual [simp]: "vstatus (virtual dp e) = Virtual"
  by (cases e) simp

lemma vkids_virtual [simp]: "vkids (virtual dp e) = map (virtual dp) (entries (snd e))"
  by (cases e) simp

lemma vlabel_virtual [simp]: "vlabel (virtual dp e) = label_of dp (fst e) (snd e)"
  by (cases e) simp

lemma vaddr_virtual [simp]: "vaddr (virtual dp e) = None"
  by (simp add: vaddr_def)

lemma subt_virtual: "subt (virtual dp e) q = Some u \<Longrightarrow> vstatus u = Virtual"
proof (induction q arbitrary: e)
  case Nil
  then show ?case by auto
next
  case (Cons i q)
  then show ?case by (auto split: if_splits)
qed

lemma fp_virtual [simp]: "fp (virtual dp e) = []"
proof (induction dp e rule: virtual.induct)
  case (1 dp key v)
  then have "\<forall>x \<in> set (entries v). fp (virtual dp x) = []" by simp
  then have "concat (map fp (map (virtual dp) (entries v))) = []" by simp
  then show ?case by simp
qed

lemma nodes_virtual [simp]: "nodes (virtual dp e) = []"
proof (induction dp e rule: virtual.induct)
  case (1 dp key v)
  then have "\<forall>x \<in> set (entries v). nodes (virtual dp x) = []" by simp
  then have "concat (map nodes (map (virtual dp) (entries v))) = []" by simp
  then show ?case by simp
qed

lemma subt_fp: "subt t p = Some u \<Longrightarrow> set (fp u) \<subseteq> set (fp t)"
proof (induction p arbitrary: t)
  case Nil
  then show ?case by simp
next
  case (Cons i p)
  obtain s l ts where t: "t = VNode s l ts" by (cases t)
  from Cons.prems t have i: "i < length ts" and u: "subt (ts ! i) p = Some u"
    by (auto split: if_splits)
  from Cons.IH [OF u] have "set (fp u) \<subseteq> set (fp (ts ! i))" .
  also from i have "\<dots> \<subseteq> set (fp (VNode s l ts))" by (intro fp_kid_subset) simp
  finally show ?case using t by simp
qed


lemma reprv_subt:
  "reprv dp h r par t \<Longrightarrow> subt t p = Some u \<Longrightarrow> vaddr u = Some a \<Longrightarrow> \<exists>par'. reprv dp h r par' u"
proof (induction p arbitrary: t par)
  case Nil
  then show ?case by auto
next
  case (Cons i p)
  obtain s l ts where t: "t = VNode s l ts" by (cases t)
  from Cons.prems t have i: "i < length ts" and u: "subt (ts ! i) p = Some u"
    by (auto split: if_splits)
  show ?case
  proof (cases s)
    case Top
    with Cons.prems t i have "reprv dp h r None (ts ! i)" by (auto simp: list_all_length)
    from Cons.IH [OF this u Cons.prems(3)] show ?thesis .
  next
    case (Real b)
    with Cons.prems t i have "reprv dp h r (Some b) (ts ! i)"
      by (auto simp: list_all_length split: option.splits)
    from Cons.IH [OF this u Cons.prems(3)] show ?thesis .
  next
    case (Pending b q)
    with Cons.prems t obtain el where "ts = map (virtual dp) (entries el)"
      by (auto split: option.splits)
    with i u have "vstatus u = Virtual" by (auto dest: subt_virtual)
    with Cons.prems show ?thesis by (simp add: vaddr_def)
  next
    case Virtual
    with Cons.prems t show ?thesis by simp
  qed
qed

lemma reprv_allocated: "reprv dp h r par t \<Longrightarrow> vaddr t = Some a \<Longrightarrow> \<exists>it. h a = Some it \<and> text0 it = vlabel t \<and> parent it = par"
  by (cases t; cases "vstatus t") (auto simp: vaddr_def split: option.splits)

lemma reprv_registry:
  "reprv dp h r par t \<Longrightarrow> a \<in> set (fp t) \<Longrightarrow>
     h a \<noteq> None \<and> (r a \<noteq> None \<longleftrightarrow> has_placeholder h a) \<and> (\<forall>el. r a = Some el \<longrightarrow> is_container el)"
proof (induction t arbitrary: par)
  case (VNode s l ts)
  show ?case
  proof (cases s)
    case Top
    with VNode.prems obtain t where t: "t \<in> set ts" "a \<in> set (fp t)" "reprv dp h r None t"
      by (auto simp: list_all_iff)
    from VNode.IH [OF t(1) t(3) t(2)] show ?thesis .
  next
    case (Real b)
    show ?thesis
    proof (cases "a = b")
      case True
      from VNode.prems Real obtain it where it: "h b = Some it" "r b = None"
        "map Some (children it) = map vaddr ts"
        "list_all (\<lambda>t. vlabel t \<noteq> [] \<and> reprv dp h r (Some b) t) ts"
        by (auto split: option.splits)
      have "\<not> has_placeholder h b"
      proof
        assume "has_placeholder h b"
        with it obtain p pt where p: "children it = [p]" "h p = Some pt" "text0 pt = []"
          by (auto simp: has_placeholder_def split: list.splits option.splits)
        with it(3) obtain t where t: "ts = [t]" "vaddr t = Some p"
          by (cases ts) auto
        with it(4) have "vlabel t \<noteq> []" "reprv dp h r (Some b) t" by auto
        from reprv_allocated [OF this(2) t(2)] p this(1) show False by simp
      qed
      with True it show ?thesis by simp
    next
      case False
      with VNode.prems Real obtain t where t: "t \<in> set ts" "a \<in> set (fp t)" "reprv dp h r (Some b) t"
        by (auto simp: list_all_iff split: option.splits)
      from VNode.IH [OF t(1) t(3) t(2)] show ?thesis .
    qed
  next
    case (Pending b p)
    with VNode.prems obtain it pt el where it: "h b = Some it" "children it = [p]" "h p = Some pt"
      "text0 pt = []" "children pt = []" "r p = None" "r b = Some el" "is_container el"
      "ts = map (virtual dp) (entries el)"
      by (auto split: option.splits)
    from it(9) have "concat (map fp ts) = []" by simp
    with VNode.prems Pending have "a = b \<or> a = p" by auto
    then show ?thesis
    proof
      assume "a = b"
      with it show ?thesis by (simp add: has_placeholder_def)
    next
      assume "a = p"
      with it show ?thesis by (simp add: has_placeholder_def)
    qed
  next
    case Virtual
    with VNode.prems show ?thesis by simp
  qed
qed

lemma nth_subset_concat: "i < length xs \<Longrightarrow> set (f (xs ! i)) \<subseteq> set (concat (map f xs))"
  using nth_mem by fastforce

lemma distinct_concat_nth:
  assumes "distinct (concat (map f xs))" "i < length xs" "j < length xs" "i \<noteq> j"
  shows "set (f (xs ! i)) \<inter> set (f (xs ! j)) = {}"
  using assms
proof (induction xs arbitrary: i j)
  case Nil
  then show ?case by simp
next
  case (Cons x xs)
  show ?case
  proof (cases i)
    case 0
    with Cons.prems obtain j' where j: "j = Suc j'" "j' < length xs" by (cases j) auto
    from j(2) have "set (f (xs ! j')) \<subseteq> set (concat (map f xs))" by (rule nth_subset_concat)
    with Cons.prems(1) 0 j show ?thesis by auto
  next
    case (Suc i')
    show ?thesis
    proof (cases j)
      case 0
      from Suc Cons.prems have "i' < length xs" by simp
      then have "set (f (xs ! i')) \<subseteq> set (concat (map f xs))" by (rule nth_subset_concat)
      with Cons.prems(1) 0 Suc show ?thesis by auto
    next
      case (Suc j')
      with \<open>i = Suc i'\<close> Cons.prems Cons.IH [of i' j'] show ?thesis by auto
    qed
  qed
qed

lemma distinct_concat_kid:
  "distinct (concat (map f xs)) \<Longrightarrow> i < length xs \<Longrightarrow> distinct (f (xs ! i))"
  by (induction xs arbitrary: i) (auto simp: nth_Cons split: nat.splits)

lemma fp_VNode_kids:
  "distinct (fp (VNode s l ts)) \<Longrightarrow> distinct (concat (map fp ts))"
  by (cases s) auto



lemma mset_concat_update:
  "i < length xs \<Longrightarrow>
     mset (concat (map f (xs[i := y]))) + mset (f (xs ! i)) = mset (concat (map f xs)) + mset (f y)"
  by (induction xs arbitrary: i) (auto simp: nth_Cons split: nat.splits)

lemma mset_fp_VNode: "mset (fp (VNode s l ts)) = mset (fp (VNode s l [])) + mset (concat (map fp ts))"
  by (cases s) auto

lemma mset_fp_substt:
  "subt t p = Some u \<Longrightarrow> mset (fp (substt t p u')) + mset (fp u) = mset (fp t) + mset (fp u')"
proof (induction p arbitrary: t)
  case Nil
  then show ?case by simp
next
  case (Cons i p)
  obtain s l ts where t: "t = VNode s l ts" by (cases t)
  from Cons.prems t have i: "i < length ts" "subt (ts ! i) p = Some u"
    by (auto split: if_splits)
  let ?x = "substt (ts ! i) p u'"
  from Cons.IH [OF i(2)] have ih: "mset (fp ?x) + mset (fp u) = mset (fp (ts ! i)) + mset (fp u')" .
  from mset_concat_update [OF i(1), of fp ?x]
  have "mset (concat (map fp (ts[i := ?x]))) + mset (fp (ts ! i))
        = mset (concat (map fp ts)) + mset (fp ?x)" .
  then have "mset (concat (map fp (ts[i := ?x]))) + mset (fp (ts ! i)) + mset (fp u)
        = mset (concat (map fp ts)) + (mset (fp ?x) + mset (fp u))"
    by (simp add: ac_simps)
  with ih have "mset (concat (map fp (ts[i := ?x]))) + mset (fp (ts ! i)) + mset (fp u)
        = mset (concat (map fp ts)) + mset (fp (ts ! i)) + mset (fp u')"
    by (simp add: ac_simps)
  then have "mset (concat (map fp (ts[i := ?x]))) + mset (fp u)
        = mset (concat (map fp ts)) + mset (fp u')"
    by (simp add: ac_simps)
  then have "mset (fp (VNode s l (ts[i := ?x]))) + mset (fp u) = mset (fp (VNode s l ts)) + mset (fp u')"
    by (subst (1 2) mset_fp_VNode) (simp add: ac_simps)
  with t i show ?case by simp
qed

lemma subt_distinct: "distinct (fp t) \<Longrightarrow> subt t p = Some u \<Longrightarrow> distinct (fp u)"
proof (induction p arbitrary: t)
  case Nil
  then show ?case by simp
next
  case (Cons i p)
  obtain s l ts where t: "t = VNode s l ts" by (cases t)
  from Cons.prems t have i: "i < length ts" "subt (ts ! i) p = Some u"
    by (auto split: if_splits)
  from Cons.prems(1) t have "distinct (concat (map fp ts))" by (simp add: fp_VNode_kids)
  from distinct_concat_kid [OF this i(1)] Cons.IH i(2) show ?case by simp
qed

lemma count_distinct: "distinct xs \<Longrightarrow> count (mset xs) a = (if a \<in> set xs then 1 else 0)"
  by (simp add: distinct_count_atmost_1)

lemma count_fp_substt:
  assumes "subt t p = Some u" "distinct (fp t)"
  shows "count (mset (fp (substt t p u'))) a =
     (if a \<in> set (fp u) then count (mset (fp u')) a
      else (if a \<in> set (fp t) then 1 else 0) + count (mset (fp u')) a)"
proof -
  from mset_fp_substt [OF assms(1), of u']
  have e: "count (mset (fp (substt t p u'))) a + count (mset (fp u)) a
           = count (mset (fp t)) a + count (mset (fp u')) a"
    by (metis count_union)
  have ct: "count (mset (fp t)) a = (if a \<in> set (fp t) then 1 else 0)"
    using assms(2) by (rule count_distinct)
  have cu: "count (mset (fp u)) a = (if a \<in> set (fp u) then 1 else 0)"
    using subt_distinct [OF assms(2) assms(1)] by (rule count_distinct)
  from subt_fp [OF assms(1)] have s: "a \<in> set (fp u) \<Longrightarrow> a \<in> set (fp t)" by auto
  show ?thesis
  proof (cases "a \<in> set (fp u)")
    case True
    with s have "a \<in> set (fp t)" by simp
    with True e ct cu show ?thesis by simp
  next
    case False
    with e ct cu show ?thesis by simp
  qed
qed

lemma set_fp_substt:
  assumes "subt t p = Some u" "distinct (fp t)"
  shows "set (fp (substt t p u')) = (set (fp t) - set (fp u)) \<union> set (fp u')"
proof (rule set_eqI)
  fix a
  have "a \<in> set (fp (substt t p u')) \<longleftrightarrow> 0 < count (mset (fp (substt t p u'))) a" by simp
  also have "\<dots> \<longleftrightarrow> a \<in> (set (fp t) - set (fp u)) \<union> set (fp u')"
    by (simp only: count_fp_substt [OF assms]) (auto simp: count_greater_zero_iff)
  finally show "a \<in> set (fp (substt t p u')) \<longleftrightarrow> a \<in> (set (fp t) - set (fp u)) \<union> set (fp u')" .
qed

lemma distinct_fp_substt:
  assumes "subt t p = Some u" "distinct (fp t)" "distinct (fp u')"
    "set (fp u') \<inter> (set (fp t) - set (fp u)) = {}"
  shows "distinct (fp (substt t p u'))"
proof -
  have "count (mset (fp (substt t p u'))) a \<le> 1" for a
    using assms(4) count_distinct [OF assms(3), of a]
    by (simp only: count_fp_substt [OF assms(1,2)]) (auto split: if_splits)
  moreover have "0 < count (mset (fp (substt t p u'))) a" if "a \<in> set (fp (substt t p u'))" for a
    using that by simp
  ultimately have "count (mset (fp (substt t p u'))) a = (if a \<in> set (fp (substt t p u')) then 1 else 0)"
    for a
    by (cases "a \<in> set (fp (substt t p u'))") (auto simp: le_Suc_eq count_eq_zero_iff)
  then show ?thesis by (simp only: distinct_count_atmost_1) simp
qed

lemma vaddr_substt:
  "subt t p = Some u \<Longrightarrow> vaddr u' = vaddr u \<Longrightarrow> vaddr (substt t p u') = vaddr t"
  by (cases p) (auto simp: vaddr_def split: if_splits)

lemma vlabel_substt:
  "subt t p = Some u \<Longrightarrow> vlabel u' = vlabel u \<Longrightarrow> vlabel (substt t p u') = vlabel t"
  by (cases p) (auto split: if_splits)

lemma subt_substt_same: "subt t p = Some u \<Longrightarrow> subt (substt t p u') p = Some u'"
  by (induction p arbitrary: t) (auto split: if_splits)

lemma erase_substt:
  "subt t p = Some u \<Longrightarrow> erase u' = erase u \<Longrightarrow> erase (substt t p u') = erase t"
proof (induction p arbitrary: t)
  case Nil
  then show ?case by simp
next
  case (Cons i p)
  obtain s l ts where t: "t = VNode s l ts" by (cases t)
  from Cons.prems t have i: "i < length ts" "subt (ts ! i) p = Some u"
    by (auto split: if_splits)
  from Cons.IH [OF i(2) Cons.prems(2)] have "erase (substt (ts ! i) p u') = erase (ts ! i)" .
  then have "map erase (ts[i := substt (ts ! i) p u']) = map erase ts"
    using i(1) by (simp add: map_update list_update_same_conv)
  with t i show ?case by simp
qed

lemma reprv_substt:
  assumes "reprv dp h r par t" "subt t p = Some u" "vaddr u = Some a" "distinct (fp t)"
    and frame: "\<forall>b \<in> set (fp t) - set (fp u).
                  map_option shape (h' b) = map_option shape (h b) \<and> r' b = r b"
    and new: "\<And>par'. reprv dp h r par' u \<Longrightarrow> reprv dp h' r' par' u'"
    and "vaddr u' = vaddr u" "vlabel u' = vlabel u"
  shows "reprv dp h' r' par (substt t p u')"
  using assms(1,2,4) frame
proof (induction p arbitrary: t par)
  case Nil
  with new show ?case by simp
next
  case (Cons i p)
  obtain s l ts where t: "t = VNode s l ts" by (cases t)
  from Cons.prems t have i: "i < length ts" "subt (ts ! i) p = Some u"
    by (auto split: if_splits)
  let ?x = "substt (ts ! i) p u'"
  from Cons.prems(3) t have d: "distinct (concat (map fp ts))" by (simp add: fp_VNode_kids)
  have di: "distinct (fp (ts ! i))" using distinct_concat_kid [OF d i(1)] .
  have ui: "set (fp u) \<subseteq> set (fp (ts ! i))" using subt_fp [OF i(2)] .
  have kid_sub: "set (fp (ts ! j)) \<subseteq> set (fp t)" if "j < length ts" for j
    using fp_kid_subset [of "ts ! j" ts s l] that t by simp
  have other: "reprv dp h' r' q (ts ! j) = reprv dp h r q (ts ! j)" if "j < length ts" "j \<noteq> i" for j q
  proof (rule reprv_frame, rule ballI)
    fix b assume b: "b \<in> set (fp (ts ! j))"
    from distinct_concat_nth [OF d that(1) i(1) that(2)] b ui have "b \<notin> set (fp u)" by auto
    with b kid_sub [OF that(1)] Cons.prems(4)
    show "map_option shape (h' b) = map_option shape (h b) \<and> r' b = r b" by auto
  qed
  have this_kid: "reprv dp h' r' q ?x" if "reprv dp h r q (ts ! i)" for q
  proof (rule Cons.IH [OF that i(2) di], rule ballI)
    fix b assume "b \<in> set (fp (ts ! i)) - set (fp u)"
    with kid_sub [OF i(1)] Cons.prems(4)
    show "map_option shape (h' b) = map_option shape (h b) \<and> r' b = r b" by auto
  qed
  have ax: "vaddr ?x = vaddr (ts ! i)" using vaddr_substt [OF i(2) assms(7)] .
  have lx: "vlabel ?x = vlabel (ts ! i)" using vlabel_substt [OF i(2) assms(8)] .
  have addrs: "map vaddr (ts[i := ?x]) = map vaddr ts"
    using i(1) ax by (simp add: map_update list_update_same_conv)
  have kid_cases: "(ts[i := ?x]) ! j = (if j = i then ?x else ts ! j)" if "j < length ts" for j
    using that by (simp add: nth_list_update)
  show ?case
  proof (cases s)
    case Top
    from Cons.prems(1) t Top have all: "\<forall>j < length ts. vaddr (ts ! j) \<noteq> None \<and> reprv dp h r None (ts ! j)"
      by (simp add: list_all_length)
    have "vaddr ((ts[i := ?x]) ! j) \<noteq> None \<and> reprv dp h' r' None ((ts[i := ?x]) ! j)"
      if "j < length ts" for j
      using all that other [of j None] this_kid [of None] ax i(1) by (auto simp: kid_cases)
    with t i Top show ?thesis by (simp add: list_all_length)
  next
    case (Real b)
    from Cons.prems(1) t Real obtain it where it: "h b = Some it" "text0 it = l" "parent it = par"
      "r b = None" "map Some (children it) = map vaddr ts"
      and all: "\<forall>j < length ts. vlabel (ts ! j) \<noteq> [] \<and> reprv dp h r (Some b) (ts ! j)"
      by (auto simp: list_all_length split: option.splits)
    from Cons.prems(3) t Real have "b \<notin> set (concat (map fp ts))" by simp
    with ui nth_subset_concat [OF i(1), of fp] have "b \<notin> set (fp u)" by blast
    with Cons.prems(4) t Real have "map_option shape (h' b) = map_option shape (h b)" "r' b = r b"
      by auto
    with it obtain it' where it': "h' b = Some it'" "text0 it' = l" "parent it' = par"
      "r' b = None" "children it' = children it"
      by (auto simp: shape_def)
    have "vlabel ((ts[i := ?x]) ! j) \<noteq> [] \<and> reprv dp h' r' (Some b) ((ts[i := ?x]) ! j)"
      if "j < length ts" for j
      using all that other [of j "Some b"] this_kid [of "Some b"] lx i(1) by (auto simp: kid_cases)
    with t i Real it' it(5) addrs show ?thesis by (simp add: list_all_length)
  next
    case (Pending b q)
    with Cons.prems(1) t obtain el where "ts = map (virtual dp) (entries el)"
      by (auto split: option.splits)
    with i have "vstatus u = Virtual" by (auto dest: subt_virtual)
    with assms(3) show ?thesis by (simp add: vaddr_def)
  next
    case Virtual
    with Cons.prems(1) t show ?thesis by simp
  qed
qed

lemma subt_substt_addr:
  assumes "subt t p = Some u" "vaddr u' = vaddr u"
    and leaf: "\<forall>q w. q \<noteq> [] \<longrightarrow> subt u q = Some w \<longrightarrow> vaddr w = None"
    and "subt t q = Some w" "vaddr w = Some b"
  shows "\<exists>w'. subt (substt t p u') q = Some w' \<and> vaddr w' = Some b"
  using assms(1,4)
proof (induction p arbitrary: t q)
  case Nil
  show ?case
  proof (cases q)
    case Nil
    with \<open>subt t [] = Some u\<close> \<open>subt t q = Some w\<close> assms(2,5) show ?thesis by simp
  next
    case (Cons j q')
    from Nil.prems have "subt u q = Some w" by simp
    with Cons leaf have "vaddr w = None" by blast
    with assms(5) show ?thesis by simp
  qed
next
  case (Cons i p)
  obtain s l ts where t: "t = VNode s l ts" by (cases t)
  from Cons.prems t have i: "i < length ts" "subt (ts ! i) p = Some u"
    by (auto split: if_splits)
  show ?case
  proof (cases q)
    case Nil
    with Cons.prems assms(5) t i show ?thesis by (simp add: vaddr_def)
  next
    case (Cons j q')
    with Cons.prems(2) t have j: "j < length ts" "subt (ts ! j) q' = Some w"
      by (auto split: if_splits)
    show ?thesis
    proof (cases "j = i")
      case True
      with Cons.IH [OF i(2)] j(2) obtain w' where "subt (substt (ts ! i) p u') q' = Some w'"
        "vaddr w' = Some b" by blast
      with True t i Cons show ?thesis by simp
    next
      case False
      with t i j Cons assms(5) show ?thesis by simp
    qed
  qed
qed

lemma add_child_scalar:
  assumes "heap st item = Some it" "item < next_ptr st" "\<not> is_container v"
  shows "add_child item key v st =
     Some (st\<lparr>heap := (heap st)(next_ptr st \<mapsto> child_item (decimal_point st) item key v (next_ptr st),
                                  item \<mapsto> it\<lparr>children := children it @ [next_ptr st]\<rparr>),
              next_ptr := Suc (next_ptr st)\<rparr>)"
  using assms
  by (auto simp: add_child_def new_QTreeWidgetItem_def setForeground_def addChild_def Let_def
      child_item_def label_of_def is_container_def fun_eq_iff)

lemma add_child_container:
  assumes "heap st item = Some it" "item < next_ptr st" "is_container v"
  shows "add_child item key v st =
     Some (st\<lparr>heap := (heap st)(next_ptr st \<mapsto> child_item (decimal_point st) item key v (next_ptr st),
                                  item \<mapsto> it\<lparr>children := children it @ [next_ptr st]\<rparr>,
                                  Suc (next_ptr st) \<mapsto> dummy_item (next_ptr st)),
              next_ptr := Suc (Suc (next_ptr st)),
              itemElementMap := (itemElementMap st)(next_ptr st \<mapsto> (parser_doc st, v))\<rparr>)"
  using assms
  by (auto simp: add_child_def new_QTreeWidgetItem_def setForeground_def addChild_def Let_def
      child_item_def dummy_item_def label_of_def is_container_def fun_eq_iff)


lemma label_of_not_Nil [simp]: "label_of dp key v \<noteq> []"
  by (simp add: label_of_def)

lemma vaddr_materialized: "map vaddr (materialized dp n es) = map Some (child_addrs n es)"
  by (induction dp n es rule: materialized.induct) (auto simp: vaddr_def)

lemma vlabel_materialized: "list_all (\<lambda>t. vlabel t \<noteq> []) (materialized dp n es)"
  by (induction dp n es rule: materialized.induct) auto

lemma concat_fp_virtual [simp]: "concat (map fp (map (virtual dp) es)) = []"
  by simp

lemma fp_materialized: "concat (map fp (materialized dp n es)) = [n..<n + span es]"
proof (induction dp n es rule: materialized.induct)
  case (1 dp n)
  then show ?case by simp
next
  case (2 dp n key v es)
  show ?case
  proof (cases "is_container v")
    case True
    with 2 have "concat (map fp (materialized dp (Suc (Suc n)) es)) = [Suc (Suc n)..<Suc (Suc n) + span es]"
      by simp
    with True show ?thesis by (simp add: upt_conv_Cons)
  next
    case False
    with 2 have "concat (map fp (materialized dp (Suc n) es)) = [Suc n..<Suc n + span es]"
      by simp
    with False show ?thesis by (simp add: upt_conv_Cons)
  qed
qed

lemma erase_virtual_scalar: "\<not> is_container v \<Longrightarrow> entries v = []"
  by (cases v) (auto simp: is_container_def)

lemma erase_materialized: "map erase (materialized dp n es) = map (erase \<circ> virtual dp) es"
  by (induction dp n es rule: materialized.induct) (auto simp: erase_virtual_scalar)

lemma add_members_grown:
  assumes "heap st item = Some it" "item < next_ptr st"
    "\<forall>b. next_ptr st \<le> b \<longrightarrow> itemElementMap st b = None"
  shows "\<exists>st'. add_members item es st = Some st' \<and> grown item es st st'"
  using assms
proof (induction es arbitrary: st it)
  case Nil
  then show ?case by (simp add: grown_def)
next
  case (Cons e es)
  obtain key v where e: "e = (key, v)" by (cases e)
  define n where "n = next_ptr st"
  define dp where "dp = decimal_point st"
  define k where "k = (if is_container v then 2 else 1 :: nat)"
  define it1 where "it1 = it\<lparr>children := children it @ [n]\<rparr>"
  define st1 where "st1 =
     (if is_container v
      then st\<lparr>heap := (heap st)(n \<mapsto> child_item dp item key v n, item \<mapsto> it1,
                                  Suc n \<mapsto> dummy_item n),
              next_ptr := Suc (Suc n),
              itemElementMap := (itemElementMap st)(n \<mapsto> (parser_doc st, v))\<rparr>
      else st\<lparr>heap := (heap st)(n \<mapsto> child_item dp item key v n, item \<mapsto> it1),
              next_ptr := Suc n\<rparr>)"
  have step: "add_child item key v st = Some st1"
    using add_child_scalar [OF Cons.prems(1,2), of v key]
      add_child_container [OF Cons.prems(1,2), of v key]
    by (simp add: st1_def n_def it1_def dp_def)
  have n1: "next_ptr st1 = n + k" by (simp add: st1_def k_def)
  have env1: "decimal_point st1 = dp" "parser_doc st1 = parser_doc st"
    by (simp_all add: st1_def dp_def)
  have neq: "item \<noteq> n" "item \<noteq> Suc n" using Cons.prems(2) by (simp_all add: n_def)
  have h1: "heap st1 item = Some it1" using neq by (simp add: st1_def)
  have lt1: "item < next_ptr st1" using Cons.prems(2) n1 by (simp add: n_def)
  have r1: "\<forall>b. next_ptr st1 \<le> b \<longrightarrow> itemElementMap st1 b = None"
    using Cons.prems(3) by (auto simp: st1_def n_def)
  from Cons.IH [OF h1 lt1 r1] obtain st' where st': "add_members item es st1 = Some st'"
    and g: "grown item es st1 st'" by blast
  from g have g1: "st' = st1\<lparr>heap := heap st', next_ptr := next_ptr st1 + span es,
              itemElementMap := itemElementMap st'\<rparr>"
    and g2: "heap st' item = Some (it1\<lparr>children := children it1 @ child_addrs (n + k) es\<rparr>)"
    and g3: "\<And>b. b \<noteq> item \<Longrightarrow> b < n + k \<or> n + k + span es \<le> b \<Longrightarrow> heap st' b = heap st1 b"
    and g4: "\<And>b. b < n + k \<or> n + k + span es \<le> b \<Longrightarrow> itemElementMap st' b = itemElementMap st1 b"
    and g6: "\<And>b. n + k \<le> b \<Longrightarrow> b < n + k + span es \<Longrightarrow> itemElementMap st' b \<noteq> None
           \<Longrightarrow> map_option fst (itemElementMap st' b) = Some (parser_doc st)"
    and g5: "list_all (reprv dp (heap st') (registry st') (Some item)) (materialized dp (n + k) es)"
    using h1 by (auto simp: grown_def n1 env1)
  have sp: "span (e # es) = k + span es" by (simp add: e k_def)
  have a: "st' = st\<lparr>heap := heap st', next_ptr := next_ptr st + span (e # es),
              itemElementMap := itemElementMap st'\<rparr>"
    by (subst g1) (simp add: st1_def n_def sp k_def)
  have ca: "child_addrs n (e # es) = n # child_addrs (n + k) es"
    by (simp add: e k_def)
  have b: "heap st' item = Some (it\<lparr>children := children it @ child_addrs n (e # es)\<rparr>)"
    using g2 by (simp add: it1_def ca)
  have c: "heap st' b = heap st b" if "b \<noteq> item" "b < n \<or> n + span (e # es) \<le> b" for b
  proof -
    from that sp have "heap st' b = heap st1 b" by (intro g3) auto
    also from that sp have "\<dots> = heap st b" by (auto simp: st1_def k_def split: if_splits)
    finally show ?thesis .
  qed
  have d: "itemElementMap st' b = itemElementMap st b" if "b < n \<or> n + span (e # es) \<le> b" for b
  proof -
    from that sp have "itemElementMap st' b = itemElementMap st1 b" by (intro g4) auto
    also from that sp have "\<dots> = itemElementMap st b"
      by (auto simp: st1_def k_def split: if_splits)
    finally show ?thesis .
  qed
  have d': "map_option fst (itemElementMap st' b) = Some (parser_doc st)"
    if "n \<le> b" "b < n + span (e # es)" "itemElementMap st' b \<noteq> None" for b
  proof (cases "b < n + k")
    case True
    then have eq: "itemElementMap st' b = itemElementMap st1 b" by (intro g4) simp
    from Cons.prems(3) that(1) have "itemElementMap st b = None" by (simp add: n_def)
    with that(3) eq show ?thesis by (auto simp: st1_def split: if_splits)
  next
    case False
    with that sp show ?thesis by (intro g6) simp_all
  qed
  let ?kid = "if is_container v
      then VNode (Pending n (Suc n)) (label_of dp key v) (map (virtual dp) (entries v))
      else VNode (Real n) (label_of dp key v) []"
  have fpk: "set (fp ?kid) \<subseteq> {n..<n + k}" by (auto simp: k_def)
  have kid1: "reprv dp (heap st1) (registry st1) (Some item) ?kid"
    using neq Cons.prems(3)
    by (auto simp: st1_def child_item_def dummy_item_def n_def vaddr_def registry_def)
  have "reprv dp (heap st') (registry st') (Some item) ?kid
        = reprv dp (heap st1) (registry st1) (Some item) ?kid"
  proof (rule reprv_frame, rule ballI)
    fix b assume "b \<in> set (fp ?kid)"
    with fpk have "n \<le> b" "b < n + k" by auto
    with neq Cons.prems(2) have "b \<noteq> item" by (auto simp: n_def)
    with \<open>b < n + k\<close> g3 [of b] g4 [of b]
    show "map_option shape (heap st' b) = map_option shape (heap st1 b)
          \<and> registry st' b = registry st1 b" by (simp add: registry_def)
  qed
  with kid1 have kid: "reprv dp (heap st') (registry st') (Some item) ?kid" by simp
  have mat: "materialized dp n (e # es) = ?kid # materialized dp (n + k) es"
    by (simp add: e k_def)
  have f: "list_all (reprv dp (heap st') (registry st') (Some item)) (materialized dp n (e # es))"
    using kid g5 by (simp only: mat list.pred_inject)
  have "add_members item (e # es) st = Some st'"
    using step st' by (simp add: e)
  moreover have "grown item (e # es) st st'"
    unfolding grown_def using a b c d d' f Cons.prems(1) by (simp add: n_def dp_def)
  ultimately show ?case by blast
qed

lemma add_elements_members:
  "add_elements item i arr st =
     add_members item
       (zip (map (\<lambda>k. to_string_int (sint (i + word_of_nat k))) [0..<length arr]) arr) st"
proof (induction arr arbitrary: i st)
  case Nil
  then show ?case by simp
next
  case (Cons v arr)
  have "[0..<length (v # arr)] = 0 # map Suc [0..<length arr]"
    by (simp add: upt_conv_Cons map_Suc_upt del: upt_Suc)
  then have z: "zip (map (\<lambda>k. to_string_int (sint (i + word_of_nat k))) [0..<length (v # arr)]) (v # arr)
      = (to_string_int (sint i), v)
        # zip (map (\<lambda>k. to_string_int (sint (i + 1 + word_of_nat k))) [0..<length arr]) arr"
    by (simp add: comp_def ac_simps del: upt_Suc)
  show ?case
    by (simp only: z add_elements.simps add_members.simps Cons.IH split: option.split) simp
qed

lemma add_children_to_item_entries:
  "add_children_to_item item el st = add_members item (entries el) st"
  by (cases el) (simp_all add: add_children_to_item_def add_elements_members array_keys_def)

lemma destroy_leaf: "h c = Some ct \<Longrightarrow> children ct = [] \<Longrightarrow> destroy [c] h = Some (h(c := None))"
  by (subst destroy.simps, simp, subst destroy.simps, simp)

lemma delete_takeChild0_placeholder:
  assumes "heap st a = Some it" "children it = [ph]" "heap st ph = Some pt" "children pt = []"
    "a \<noteq> ph"
  shows "delete_takeChild0 a st
         = Some (st\<lparr>heap := (heap st)(a \<mapsto> it\<lparr>children := []\<rparr>, ph := None)\<rparr>)"
proof -
  let ?h2 = "(heap st)(a \<mapsto> it\<lparr>children := []\<rparr>, ph \<mapsto> pt\<lparr>parent := None\<rparr>)"
  have "destroy [ph] ?h2 = Some (?h2(ph := None))"
    by (rule destroy_leaf [of _ _ "pt\<lparr>parent := None\<rparr>"]) (simp_all add: assms)
  with assms show ?thesis
    by (simp add: delete_takeChild0_def Let_def)
qed

lemma on_treeWidget_itemExpanded_pending:
  assumes "itemElementMap st a = Some (parser_doc st, el)" "heap st a = Some it"
    "children it = [ph]"
    "heap st ph = Some pt" "text0 pt = []" "children pt = []" "a \<noteq> ph"
    "a < next_ptr st" "ph < next_ptr st"
    "\<forall>b. next_ptr st \<le> b \<longrightarrow> itemElementMap st b = None"
  defines "n \<equiv> next_ptr st" and "es \<equiv> entries el" and "dp \<equiv> decimal_point st"
  shows "\<exists>st1. on_treeWidget_itemExpanded a st = Some st1
     \<and> st1 = st\<lparr>heap := heap st1, next_ptr := n + span es, itemElementMap := itemElementMap st1\<rparr>
     \<and> heap st1 a = Some (it\<lparr>children := child_addrs n es\<rparr>)
     \<and> heap st1 ph = None
     \<and> (\<forall>b. b \<noteq> a \<longrightarrow> b \<noteq> ph \<longrightarrow> b < n \<or> n + span es \<le> b \<longrightarrow> heap st1 b = heap st b)
     \<and> itemElementMap st1 a = None
     \<and> (\<forall>b. b \<noteq> a \<longrightarrow> b < n \<or> n + span es \<le> b \<longrightarrow> itemElementMap st1 b = itemElementMap st b)
     \<and> (\<forall>b. n \<le> b \<longrightarrow> b < n + span es \<longrightarrow> itemElementMap st1 b \<noteq> None
           \<longrightarrow> map_option fst (itemElementMap st1 b) = Some (parser_doc st))
     \<and> list_all (reprv dp (heap st1) (registry st1) (Some a)) (materialized dp n es)"
proof -
  define it0 where "it0 = it\<lparr>children := []\<rparr>"
  define st0 where "st0 = st\<lparr>heap := (heap st)(a \<mapsto> it0, ph := None)\<rparr>"
  have del: "delete_takeChild0 a st = Some st0"
    using delete_takeChild0_placeholder [OF assms(2,3,4,6,7)] by (simp add: st0_def it0_def)
  have h0: "heap st0 a = Some it0" using assms(7) by (simp add: st0_def)
  have "\<exists>st2. add_members a es st0 = Some st2 \<and> grown a es st0 st2"
    by (rule add_members_grown [OF h0]) (use assms(8,10) in \<open>simp_all add: st0_def\<close>)
  then obtain st2 where st2: "add_members a es st0 = Some st2" and g: "grown a es st0 st2"
    by blast
  from g h0 have g1: "st2 = st0\<lparr>heap := heap st2, next_ptr := n + span es,
              itemElementMap := itemElementMap st2\<rparr>"
    and g2: "heap st2 a = Some (it0\<lparr>children := children it0 @ child_addrs n es\<rparr>)"
    and g3: "\<And>b. b \<noteq> a \<Longrightarrow> b < n \<or> n + span es \<le> b \<Longrightarrow> heap st2 b = heap st0 b"
    and g4: "\<And>b. b < n \<or> n + span es \<le> b \<Longrightarrow> itemElementMap st2 b = itemElementMap st0 b"
    and g6: "\<And>b. n \<le> b \<Longrightarrow> b < n + span es \<Longrightarrow> itemElementMap st2 b \<noteq> None
            \<Longrightarrow> map_option fst (itemElementMap st2 b) = Some (parser_doc st)"
    and g5: "list_all (reprv dp (heap st2) (registry st2) (Some a)) (materialized dp n es)"
    by (auto simp: grown_def n_def st0_def dp_def)
  define st1 where "st1 = st2\<lparr>itemElementMap := (itemElementMap st2)(a := None)\<rparr>"
  have run: "on_treeWidget_itemExpanded a st = Some st1"
    using assms(1-5) del st2
    by (simp add: on_treeWidget_itemExpanded_def add_children_to_item_entries es_def st1_def
        deref_def st0_def)
  have a: "st1 = st\<lparr>heap := heap st1, next_ptr := n + span es, itemElementMap := itemElementMap st1\<rparr>"
    unfolding st1_def by (subst g1) (simp add: st0_def)
  have b: "heap st1 a = Some (it\<lparr>children := child_addrs n es\<rparr>)"
    using g2 by (simp add: st1_def it0_def)
  have c: "heap st1 ph = None"
    using g3 [of ph] assms(7,9) by (simp add: st1_def st0_def n_def)
  have d: "\<forall>b. b \<noteq> a \<longrightarrow> b \<noteq> ph \<longrightarrow> b < n \<or> n + span es \<le> b \<longrightarrow> heap st1 b = heap st b"
    using g3 by (simp add: st1_def st0_def)
  have e: "itemElementMap st1 a = None" by (simp add: st1_def)
  have f: "\<forall>b. b \<noteq> a \<longrightarrow> b < n \<or> n + span es \<le> b \<longrightarrow> itemElementMap st1 b = itemElementMap st b"
    using g4 by (simp add: st1_def st0_def)
  have f': "\<forall>b. n \<le> b \<longrightarrow> b < n + span es \<longrightarrow> itemElementMap st1 b \<noteq> None
           \<longrightarrow> map_option fst (itemElementMap st1 b) = Some (parser_doc st)"
    using g6 by (simp add: st1_def)
  have "reprv dp (heap st1) (registry st1) (Some a) t = reprv dp (heap st2) (registry st2) (Some a) t"
    if "t \<in> set (materialized dp n es)" for t
  proof (rule reprv_frame, rule ballI)
    fix b assume "b \<in> set (fp t)"
    with that have "b \<in> set (concat (map fp (materialized dp n es)))" by auto
    then have "n \<le> b" by (simp add: fp_materialized)
    with assms(8) have "b \<noteq> a" by (simp add: n_def)
    then show "map_option shape (heap st1 b) = map_option shape (heap st2 b)
       \<and> registry st1 b = registry st2 b"
      by (simp add: st1_def registry_def)
  qed
  with g5 have g: "list_all (reprv dp (heap st1) (registry st1) (Some a)) (materialized dp n es)"
    by (simp add: list_all_iff)
  from run a b c d e f f' g show ?thesis by blast
qed

lemma on_treeWidget_itemExpanded_unregistered:
  "itemElementMap st a = None \<Longrightarrow> on_treeWidget_itemExpanded a st = Some st"
  by (simp add: on_treeWidget_itemExpanded_def)

lemma nodes_kid_subset: "t \<in> set ts \<Longrightarrow> set (nodes t) \<subseteq> set (nodes (VNode s l ts))"
  by (cases s) auto

lemma subt_nodes: "subt t p = Some u \<Longrightarrow> set (nodes u) \<subseteq> set (nodes t)"
proof (induction p arbitrary: t)
  case Nil
  then show ?case by simp
next
  case (Cons i p)
  obtain s l ts where t: "t = VNode s l ts" by (cases t)
  from Cons.prems t have i: "i < length ts" and u: "subt (ts ! i) p = Some u"
    by (auto split: if_splits)
  from Cons.IH [OF u] have "set (nodes u) \<subseteq> set (nodes (ts ! i))" .
  also from i have "\<dots> \<subseteq> set (nodes (VNode s l ts))" by (intro nodes_kid_subset) simp
  finally show ?case using t by simp
qed

lemma subt_in_nodes: "subt t p = Some u \<Longrightarrow> vaddr u = Some m \<Longrightarrow> m \<in> set (nodes t)"
  using subt_nodes vaddr_in_nodes by blast

lemma nodes_subt: "m \<in> set (nodes t) \<Longrightarrow> \<exists>p u. subt t p = Some u \<and> vaddr u = Some m"
proof (induction t)
  case (VNode s l ts)
  show ?case
  proof (cases "status_addr s = Some m")
    case True
    then have "subt (VNode s l ts) [] = Some (VNode s l ts) \<and> vaddr (VNode s l ts) = Some m"
      by (simp add: vaddr_def)
    then show ?thesis by blast
  next
    case False
    with VNode.prems obtain t where t: "t \<in> set ts" "m \<in> set (nodes t)"
      by (cases s) auto
    from VNode.IH [OF t] obtain p u where pu: "subt t p = Some u" "vaddr u = Some m" by blast
    from t(1) obtain i where i: "i < length ts" "ts ! i = t" by (auto simp: in_set_conv_nth)
    with pu have "subt (VNode s l ts) (i # p) = Some u" by simp
    with pu(2) show ?thesis by blast
  qed
qed

lemma flagged_refl: "flagged st st"
  unfolding flagged_def by (intro exI [of _ "heap st"]) simp

lemma flaggedI:
  "(\<And>b. map_option shape (h' b) = map_option shape (heap st b)) \<Longrightarrow> flagged st (st\<lparr>heap := h'\<rparr>)"
  unfolding flagged_def by blast

lemma flagged_heap: "flagged st st' \<Longrightarrow> map_option shape (heap st' b) = map_option shape (heap st b)"
  unfolding flagged_def by auto

lemma flagged_update:
  assumes "flagged st st'" "heap st' b = Some it" "shape it' = shape it"
  shows "flagged st (st'\<lparr>heap := (heap st')(b \<mapsto> it')\<rparr>)"
proof -
  from assms(1) obtain h' where st': "st' = st\<lparr>heap := h'\<rparr>"
    and sh: "\<And>c. map_option shape (h' c) = map_option shape (heap st c)"
    unfolding flagged_def by blast
  from assms(2) st' have hb: "h' b = Some it" by simp
  have "map_option shape ((h'(b \<mapsto> it')) c) = map_option shape (heap st c)" for c
    using sh [of c] hb assms(3) by (cases "c = b") auto
  then have "flagged st (st\<lparr>heap := h'(b \<mapsto> it')\<rparr>)" by (rule flaggedI)
  then show ?thesis by (simp add: st')
qed

lemma flagged_fields:
  assumes "flagged st st'"
  shows "next_ptr st' = next_ptr st" "topLevelItems st' = topLevelItems st"
    "currentItem st' = currentItem st" "scrolledTo st' = scrolledTo st"
    "textEdit st' = textEdit st" "radioCapital st' = radioCapital st"
    "lastSearchText st' = lastSearchText st" "lastMatch st' = lastMatch st"
    "itemElementMap st' = itemElementMap st" "messages st' = messages st"
    "decimal_point st' = decimal_point st" "parser_doc st' = parser_doc st"
    "registry st' = registry st" "fresh st' = fresh st"
  using assms unfolding flagged_def by auto

lemma flagged_clearSelection: "flagged st (clearSelection st)"
  unfolding clearSelection_def
proof (rule flaggedI)
  fix b
  show "map_option shape (map_option (\<lambda>it. it\<lparr>selected := False\<rparr>) (heap st b))
        = map_option shape (heap st b)"
    by (cases "heap st b") (simp_all add: shape_def)
qed

lemma expand_parents_reprv:
  assumes "reprv dp (heap st) r par t" "subt t p = Some u" "vaddr u = Some a" "heap st a = Some it"
    and "\<And>st'. flagged st st' \<Longrightarrow> \<exists>st''. expand_parents par st' = Some st'' \<and> flagged st st''"
    and "flagged st st'"
  shows "\<exists>st''. expand_parents (parent it) st' = Some st'' \<and> flagged st st''"
  using assms
proof (induction p arbitrary: t par st')
  case Nil
  from Nil.prems(2) have "u = t" by simp
  with reprv_allocated [OF Nil.prems(1)] Nil.prems(3,4) have "parent it = par" by auto
  with Nil.prems(5) [OF Nil.prems(6)] show ?case by simp
next
  case (Cons i p)
  obtain s l ts where t: "t = VNode s l ts" by (cases t)
  from Cons.prems t have i: "i < length ts" and u: "subt (ts ! i) p = Some u"
    by (auto split: if_splits)
  show ?case
  proof (cases s)
    case Top
    with Cons.prems(1) t i have k: "reprv dp (heap st) r None (ts ! i)" by (auto simp: list_all_length)
    show ?thesis
    proof (rule Cons.IH [OF k u Cons.prems(3,4) _ Cons.prems(6)])
      fix st1 assume "flagged st st1"
      then show "\<exists>st''. expand_parents None st1 = Some st'' \<and> flagged st st''"
        by (subst expand_parents.simps) simp
    qed
  next
    case (Real b)
    with Cons.prems(1) t i obtain itb where itb: "heap st b = Some itb" "parent itb = par"
      and k: "reprv dp (heap st) r (Some b) (ts ! i)"
      by (auto simp: list_all_length split: option.splits)
    show ?thesis
    proof (rule Cons.IH [OF k u Cons.prems(3,4) _ Cons.prems(6)])
      fix st1 assume f: "flagged st st1"
      from flagged_heap [OF f, of b] itb obtain itb' where b': "heap st1 b = Some itb'"
        "parent itb' = par"
        by (auto simp: shape_def)
      let ?st2 = "st1\<lparr>heap := (heap st1)(b \<mapsto> itb'\<lparr>expanded := True\<rparr>)\<rparr>"
      have "flagged st ?st2" by (rule flagged_update [OF f b'(1)]) (simp add: shape_def)
      from Cons.prems(5) [OF this] obtain st'' where
        "expand_parents par ?st2 = Some st''" "flagged st st''" by blast
      with b' show "\<exists>st''. expand_parents (Some b) st1 = Some st'' \<and> flagged st st''"
        by (subst expand_parents.simps) simp
    qed
  next
    case (Pending b q)
    with Cons.prems(1) t obtain el where "ts = map (virtual dp) (entries el)"
      by (auto split: option.splits)
    with i u have "vstatus u = Virtual" by (auto dest: subt_virtual)
    with Cons.prems(3) show ?thesis by (simp add: vaddr_def)
  next
    case Virtual
    with Cons.prems(1) t show ?thesis by simp
  qed
qed

lemma flagged_allocated: "flagged st st' \<Longrightarrow> heap st' b \<noteq> None \<longleftrightarrow> heap st b \<noteq> None"
  using flagged_heap [of st st' b] by (cases "heap st b"; cases "heap st' b") auto

lemma wtD:
  assumes "wf_tree st T"
  shows "vstatus T = Top" "map Some (topLevelItems st) = map vaddr (vkids T)"
    "reprv (decimal_point st) (heap st) (registry st) None T" "distinct (fp T)"
    "\<And>a. heap st a \<noteq> None \<longleftrightarrow> a \<in> set (fp T)"
    "\<And>a. itemElementMap st a \<noteq> None \<Longrightarrow> heap st a \<noteq> None"
    "\<And>a. heap st a \<noteq> None \<Longrightarrow> a < next_ptr st"
    "lastMatch st = None \<Longrightarrow> lastSearchText st = []"
    "\<And>m. lastMatch st = Some m \<Longrightarrow> m \<in> set (nodes T)"
  using assms unfolding wf_tree_def by blast+

lemma wtI:
  assumes "vstatus T = Top" "map Some (topLevelItems st) = map vaddr (vkids T)"
    "reprv (decimal_point st) (heap st) (registry st) None T" "distinct (fp T)"
    "\<And>a. heap st a \<noteq> None \<longleftrightarrow> a \<in> set (fp T)"
    "\<And>a. itemElementMap st a \<noteq> None \<Longrightarrow> heap st a \<noteq> None"
    "\<And>a. heap st a \<noteq> None \<Longrightarrow> a < next_ptr st"
    "lastMatch st = None \<Longrightarrow> lastSearchText st = []"
    "\<And>m. lastMatch st = Some m \<Longrightarrow> m \<in> set (nodes T)"
  shows "wf_tree st T"
  using assms unfolding wf_tree_def by blast

lemma wf_state_tree: "wf_state st T \<Longrightarrow> wf_tree st T"
  by (simp add: wf_state_def)

lemma wf_state_fresh: "wf_state st T \<Longrightarrow> fresh st"
  by (simp add: wf_state_def)

lemma wf_stateI: "wf_tree st T \<Longrightarrow> fresh st \<Longrightarrow> wf_state st T"
  by (simp add: wf_state_def)

lemma wfD:
  assumes "wf_state st T"
  shows "vstatus T = Top" "map Some (topLevelItems st) = map vaddr (vkids T)"
    "reprv (decimal_point st) (heap st) (registry st) None T" "distinct (fp T)"
    "\<And>a. heap st a \<noteq> None \<longleftrightarrow> a \<in> set (fp T)"
    "\<And>a. itemElementMap st a \<noteq> None \<Longrightarrow> heap st a \<noteq> None"
    "\<And>a. heap st a \<noteq> None \<Longrightarrow> a < next_ptr st"
    "lastMatch st = None \<Longrightarrow> lastSearchText st = []"
    "\<And>m. lastMatch st = Some m \<Longrightarrow> m \<in> set (nodes T)"
    "fresh st"
  using assms unfolding wf_state_def wf_tree_def by blast+

lemma wfI:
  assumes "vstatus T = Top" "map Some (topLevelItems st) = map vaddr (vkids T)"
    "reprv (decimal_point st) (heap st) (registry st) None T" "distinct (fp T)"
    "\<And>a. heap st a \<noteq> None \<longleftrightarrow> a \<in> set (fp T)"
    "\<And>a. itemElementMap st a \<noteq> None \<Longrightarrow> heap st a \<noteq> None"
    "\<And>a. heap st a \<noteq> None \<Longrightarrow> a < next_ptr st"
    "lastMatch st = None \<Longrightarrow> lastSearchText st = []"
    "\<And>m. lastMatch st = Some m \<Longrightarrow> m \<in> set (nodes T)"
    "fresh st"
  shows "wf_state st T"
  using assms unfolding wf_state_def wf_tree_def by blast

lemma wt_above:
  assumes "wf_tree st T" "next_ptr st \<le> b"
  shows "heap st b = None" "itemElementMap st b = None"
proof -
  show h: "heap st b = None"
  proof (cases "heap st b")
    case (Some it)
    then have "heap st b \<noteq> None" by simp
    from wtD(7) [OF assms(1) this] assms(2) show ?thesis by simp
  qed simp
  show "itemElementMap st b = None"
  proof (cases "itemElementMap st b")
    case (Some el)
    then have "itemElementMap st b \<noteq> None" by simp
    from wtD(6) [OF assms(1) this] h show ?thesis by simp
  qed simp
qed

lemma wf_above:
  assumes "wf_state st T" "next_ptr st \<le> b"
  shows "heap st b = None" "itemElementMap st b = None"
  by (rule wt_above [OF wf_state_tree [OF assms(1)] assms(2)])+

lemma wt_flagged:
  assumes "wf_tree st T" "flagged st st'"
  shows "wf_tree st' T"
proof (rule wtI)
  note f = flagged_fields [OF assms(2)]
  note w = wtD [OF assms(1)]
  show "vstatus T = Top" by (rule w)
  show "map Some (topLevelItems st') = map vaddr (vkids T)" using w(2) by (simp add: f)
  have "reprv (decimal_point st) (heap st') (registry st') None T
      = reprv (decimal_point st) (heap st) (registry st) None T"
    by (rule reprv_frame) (simp add: flagged_heap [OF assms(2)] f)
  with w(3) show "reprv (decimal_point st') (heap st') (registry st') None T" by (simp add: f)
  show "distinct (fp T)" by (rule w)
  show "heap st' a \<noteq> None \<longleftrightarrow> a \<in> set (fp T)" for a
    using w(5) [of a] flagged_allocated [OF assms(2), of a] by simp
  show "heap st' a \<noteq> None" if "itemElementMap st' a \<noteq> None" for a
    using that w(6) [of a] flagged_allocated [OF assms(2), of a] by (simp add: f)
  show "a < next_ptr st'" if "heap st' a \<noteq> None" for a
    using that w(7) [of a] flagged_allocated [OF assms(2), of a] by (simp add: f)
  show "lastSearchText st' = []" if "lastMatch st' = None" using that w(8) by (simp add: f)
  show "m \<in> set (nodes T)" if "lastMatch st' = Some m" for m using that w(9) by (simp add: f)
qed


lemma wt_fields:
  assumes "wf_tree st T" "heap st' = heap st" "itemElementMap st' = itemElementMap st"
    "topLevelItems st' = topLevelItems st" "next_ptr st' = next_ptr st"
    "lastMatch st' = None \<Longrightarrow> lastSearchText st' = []"
    "\<And>m. lastMatch st' = Some m \<Longrightarrow> m \<in> set (nodes T)"
    "decimal_point st' = decimal_point st"
  shows "wf_tree st' T"
proof (rule wtI)
  note w = wtD [OF assms(1)]
  show "vstatus T = Top" by (rule w)
  show "map Some (topLevelItems st') = map vaddr (vkids T)" using w(2) assms(4) by simp
  show "reprv (decimal_point st') (heap st') (registry st') None T"
    using w(3) assms(2,8) registry_cong [OF assms(3)] by simp
  show "distinct (fp T)" by (rule w)
  show "heap st' a \<noteq> None \<longleftrightarrow> a \<in> set (fp T)" for a using w(5) [of a] assms(2) by simp
  show "heap st' a \<noteq> None" if "itemElementMap st' a \<noteq> None" for a
    using that w(6) [of a] assms(2,3) by simp
  show "a < next_ptr st'" if "heap st' a \<noteq> None" for a
    using that w(7) [of a] assms(2,5) by simp
  show "lastSearchText st' = []" if "lastMatch st' = None" using that by (rule assms)
  show "m \<in> set (nodes T)" if "lastMatch st' = Some m" for m using that by (rule assms)
qed

lemma wf_fields:
  assumes "wf_state st T" "heap st' = heap st" "itemElementMap st' = itemElementMap st"
    "topLevelItems st' = topLevelItems st" "next_ptr st' = next_ptr st"
    "lastMatch st' = None \<Longrightarrow> lastSearchText st' = []"
    "\<And>m. lastMatch st' = Some m \<Longrightarrow> m \<in> set (nodes T)"
    "decimal_point st' = decimal_point st" "parser_doc st' = parser_doc st"
  shows "wf_state st' T"
proof (rule wf_stateI)
  show "wf_tree st' T"
    by (rule wt_fields [OF wf_state_tree [OF assms(1)] assms(2-5) _ _ assms(8)])
      (erule assms(6), erule assms(7))
  show "fresh st'" using wf_state_fresh [OF assms(1)] assms(3,9) by (simp add: fresh_def)
qed

lemma wt_matched:
  assumes "wf_tree st T" "a \<in> set (nodes T)"
  shows "wf_tree (st\<lparr>scrolledTo := x, lastMatch := Some a\<rparr>) T"
  by (rule wt_fields [OF assms(1)]) (simp_all add: assms(2))


lemma wt_lastSearchText:
  assumes "wf_tree st T" "lastMatch st \<noteq> None"
  shows "wf_tree (st\<lparr>lastSearchText := s\<rparr>) T"
  by (rule wt_fields [OF assms(1)]) (use assms(2) wtD(9) [OF assms(1)] in auto)

lemma wf_lastSearchText:
  assumes "wf_state st T" "lastMatch st \<noteq> None"
  shows "wf_state (st\<lparr>lastSearchText := s\<rparr>) T"
  by (rule wf_fields [OF assms(1)]) (use assms(2) wfD(9) [OF assms(1)] in auto)

lemma wt_qInfo: "wf_tree st T \<Longrightarrow> wf_tree (qInfo msg st) T"
  by (rule wt_fields) (auto simp: qInfo_def dest: wtD(8,9))


lemma wt_node:
  assumes "wf_tree st T" "subt T p = Some u" "vaddr u = Some a"
  shows "\<exists>it par. heap st a = Some it \<and> text0 it = vlabel u \<and> parent it = par
           \<and> reprv (decimal_point st) (heap st) (registry st) par u"
proof -
  from assms(1) have "reprv (decimal_point st) (heap st) (registry st) None T" by (rule wtD)
  from reprv_subt [OF this assms(2,3)] obtain par where
    r: "reprv (decimal_point st) (heap st) (registry st) par u" by blast
  from reprv_allocated [OF r assms(3)] r show ?thesis by blast
qed


lemma select_match_wt:
  assumes "wf_tree st T" "subt T p = Some u" "vaddr u = Some a"
  shows "\<exists>st2. flagged st st2
     \<and> select_match a st = Some (st2\<lparr>scrolledTo := Some a, lastMatch := Some a\<rparr>)"
proof -
  from wt_node [OF assms] obtain it where it: "heap st a = Some it" by blast
  define st0 where "st0 = clearSelection st"
  have f0: "flagged st st0" by (simp add: st0_def flagged_clearSelection)
  from flagged_heap [OF f0, of a] it obtain it0 where it0: "heap st0 a = Some it0"
    "parent it0 = parent it"
    by (auto simp: shape_def)
  define st1 where "st1 = st0\<lparr>heap := (heap st0)(a \<mapsto> it0\<lparr>selected := True\<rparr>)\<rparr>"
  have f1: "flagged st st1"
    unfolding st1_def by (rule flagged_update [OF f0 it0(1)]) (simp add: shape_def)
  have s1: "setSelected a st0 = Some st1" by (simp add: setSelected_def it0 st1_def)
  have h1: "heap st1 a = Some (it0\<lparr>selected := True\<rparr>)" by (simp add: st1_def)
  from assms(1) have r: "reprv (decimal_point st) (heap st) (registry st) None T" by (rule wtD)
  have "\<exists>st''. expand_parents (parent it) st1 = Some st'' \<and> flagged st st''"
  proof (rule expand_parents_reprv [OF r assms(2,3) it _ f1])
    fix st' assume "flagged st st'"
    then show "\<exists>st''. expand_parents None st' = Some st'' \<and> flagged st st''"
      by (subst expand_parents.simps) simp
  qed
  then obtain st2 where st2: "expand_parents (parent it) st1 = Some st2" "flagged st st2" by blast
  have "select_match a st = Some (st2\<lparr>scrolledTo := Some a, lastMatch := Some a\<rparr>)"
    using s1 h1 st2(1) it0(2) by (simp add: select_match_def st0_def [symmetric])
  with st2(2) show ?thesis by blast
qed


lemma map_vaddr_kids_substt:
  assumes "subt t p = Some u" "vaddr u' = vaddr u" "p \<noteq> []"
  shows "map vaddr (vkids (substt t p u')) = map vaddr (vkids t)"
proof -
  from assms(3) obtain i p' where p: "p = i # p'" by (cases p) auto
  with assms(1) have i: "i < length (vkids t)" "subt (vkids t ! i) p' = Some u"
    by (auto split: if_splits)
  from vaddr_substt [OF i(2) assms(2)] i(1) p show ?thesis
    by (simp add: map_update list_update_same_conv)
qed

lemma vstatus_substt: "p \<noteq> [] \<Longrightarrow> vstatus (substt t p u') = vstatus t"
  by (cases p) auto

lemma subt_pending_leaf:
  assumes "q \<noteq> []" "subt (VNode (Pending a ph) l (map (virtual dp) es)) q = Some w"
  shows "vaddr w = None"
proof -
  from assms(1) obtain i q' where q: "q = i # q'" by (cases q) auto
  with assms(2) have "i < length es" "subt (virtual dp (es ! i)) q' = Some w"
    by (auto split: if_splits)
  from subt_virtual [OF this(2)] show ?thesis by (simp add: vaddr_def)
qed

lemma nodes_substt:
  assumes "subt t p = Some u" "vaddr u' = vaddr u"
    and "\<forall>q w. q \<noteq> [] \<longrightarrow> subt u q = Some w \<longrightarrow> vaddr w = None"
    and "m \<in> set (nodes t)"
  shows "m \<in> set (nodes (substt t p u'))"
proof -
  from nodes_subt [OF assms(4)] obtain q w where "subt t q = Some w" "vaddr w = Some m" by blast
  from subt_substt_addr [OF assms(1,2,3) this] obtain w' where
    "subt (substt t p u') q = Some w'" "vaddr w' = Some m" by blast
  then show ?thesis by (rule subt_in_nodes)
qed

lemma expand_wt:
  assumes "wf_tree st T" "subt T p = Some (VNode (Pending a ph) l vs)"
    "itemElementMap st a = Some (parser_doc st, el)"
  shows "\<exists>st1. vs = map (virtual (decimal_point st)) (entries el)
     \<and> on_treeWidget_itemExpanded a st = Some st1
     \<and> wf_tree st1 (substt T p (VNode (Real a) l (materialized (decimal_point st) (next_ptr st) (entries el))))
     \<and> (\<exists>it. heap st a = Some it
           \<and> heap st1 a = Some (it\<lparr>children := child_addrs (next_ptr st) (entries el)\<rparr>))
     \<and> (\<exists>h r n. st1 = st\<lparr>heap := h, next_ptr := n, itemElementMap := r\<rparr>)
     \<and> kept st st1 \<and> grows st st1 \<and> (fresh st \<longrightarrow> fresh st1)"
proof -
  define dp where "dp = decimal_point st"
  note w = wtD [OF assms(1), folded dp_def]
  define u where "u = VNode (Pending a ph) l vs"
  have u: "subt T p = Some u" "vaddr u = Some a" using assms(2) by (simp_all add: u_def vaddr_def)
  from wt_node [OF assms(1) u, folded dp_def] obtain it par where it: "heap st a = Some it"
    and ru: "reprv dp (heap st) (registry st) par u" by blast
  have reg: "registry st a = Some el" using assms(3) by (simp add: registry_def)
  from ru it reg obtain pt where f: "text0 it = l" "parent it = par" "children it = [ph]"
    "heap st ph = Some pt" "text0 pt = []" "children pt = []" "itemElementMap st ph = None"
    "registry st a = Some el" "is_container el" "vs = map (virtual dp) (entries el)"
    by (auto simp: u_def split: option.splits)
  define n where "n = next_ptr st"
  define es where "es = entries el"
  have fpu: "fp u = [a, ph]" by (simp add: u_def f(10))
  from subt_distinct [OF w(4) u(1)] fpu have neq: "a \<noteq> ph" by simp
  from subt_fp [OF u(1)] fpu have inT: "a \<in> set (fp T)" "ph \<in> set (fp T)" by auto
  with w(5) w(7) it f(4) have lt: "a < n" "ph < n" by (auto simp: n_def)
  have above: "\<forall>b. next_ptr st \<le> b \<longrightarrow> itemElementMap st b = None"
    using wt_above(2) [OF assms(1)] by blast
  note hnd = assms(3)
  from on_treeWidget_itemExpanded_pending [OF hnd it f(3,4,5,6) neq lt [unfolded n_def] above]
  obtain st1 where run: "on_treeWidget_itemExpanded a st = Some st1"
    and e1: "st1 = st\<lparr>heap := heap st1, next_ptr := n + span es, itemElementMap := itemElementMap st1\<rparr>"
    and e2: "heap st1 a = Some (it\<lparr>children := child_addrs n es\<rparr>)"
    and e3: "heap st1 ph = None"
    and e4: "\<And>b. b \<noteq> a \<Longrightarrow> b \<noteq> ph \<Longrightarrow> b < n \<or> n + span es \<le> b \<Longrightarrow> heap st1 b = heap st b"
    and e5: "itemElementMap st1 a = None"
    and e6: "\<And>b. b \<noteq> a \<Longrightarrow> b < n \<or> n + span es \<le> b \<Longrightarrow> itemElementMap st1 b = itemElementMap st b"
    and e8: "\<And>b. n \<le> b \<Longrightarrow> b < n + span es \<Longrightarrow> itemElementMap st1 b \<noteq> None
            \<Longrightarrow> map_option fst (itemElementMap st1 b) = Some (parser_doc st)"
    and e7: "list_all (reprv dp (heap st1) (registry st1) (Some a)) (materialized dp n es)"
    unfolding n_def es_def dp_def by blast
  define kids where "kids = materialized dp n es"
  define u' where "u' = VNode (Real a) l kids"
  define T' where "T' = substt T p u'"
  have fpk: "concat (map fp kids) = [n..<n + span es]" by (simp add: kids_def fp_materialized)
  have fpu': "fp u' = a # [n..<n + span es]" by (simp add: u'_def fpk)
  have vu': "vaddr u' = vaddr u" "vlabel u' = vlabel u" by (simp_all add: u'_def u_def vaddr_def)
  have fields: "topLevelItems st1 = topLevelItems st" "lastMatch st1 = lastMatch st"
    "lastSearchText st1 = lastSearchText st" "next_ptr st1 = n + span es"
    "decimal_point st1 = dp" "parser_doc st1 = parser_doc st"
    by (subst e1, simp add: dp_def)+
  have new_alloc: "heap st1 b \<noteq> None" if "n \<le> b" "b < n + span es" for b
  proof -
    from that have "b \<in> set (concat (map fp kids))" by (simp add: fpk)
    then obtain t where t: "t \<in> set kids" "b \<in> set (fp t)" by auto
    with e7 have "reprv dp (heap st1) (registry st1) (Some a) t"
      by (simp add: kids_def list_all_iff)
    from reprv_registry [OF this t(2)] show ?thesis by simp
  qed
  have old_none: "heap st b = None" if "n \<le> b" for b
    using that wt_above(1) [OF assms(1), of b] by (simp add: n_def)
  have new_u': "reprv dp (heap st1) (registry st1) par' u'"
    if "reprv dp (heap st) (registry st) par' u" for par'
  proof -
    from that it have "parent it = par'" by (auto simp: u_def split: option.splits)
    moreover have "list_all (\<lambda>t. vlabel t \<noteq> [] \<and> reprv dp (heap st1) (registry st1) (Some a) t) kids"
      using e7 vlabel_materialized [of dp n es] by (simp add: kids_def list_all_iff)
    ultimately show ?thesis
      using e2 e5 f(1) by (simp add: u'_def kids_def vaddr_materialized)
  qed
  have pne: "p \<noteq> []"
  proof
    assume "p = []"
    with u(1) have "T = u" by simp
    with w(1) show False by (simp add: u_def)
  qed
  have leaf: "\<forall>q w. q \<noteq> [] \<longrightarrow> subt u q = Some w \<longrightarrow> vaddr w = None"
    unfolding u_def f(10) using subt_pending_leaf by blast
  have setT': "set (fp T') = (set (fp T) - {a, ph}) \<union> insert a {n..<n + span es}"
    unfolding T'_def using set_fp_substt [OF u(1) w(4), of u'] by (simp add: fpu fpu')
  have "wf_tree st1 T'"
  proof (rule wtI)
    show "vstatus T' = Top" using pne w(1) by (simp add: T'_def vstatus_substt)
    show "map Some (topLevelItems st1) = map vaddr (vkids T')"
      using map_vaddr_kids_substt [OF u(1) vu'(1) pne] w(2) by (simp add: T'_def fields)
    show "reprv (decimal_point st1) (heap st1) (registry st1) None T'"
      unfolding T'_def fields(5)
    proof (rule reprv_substt [OF w(3) u w(4) _ new_u' vu'], rule ballI)
      fix b assume b: "b \<in> set (fp T) - set (fp u)"
      with fpu have "b \<noteq> a" "b \<noteq> ph" by auto
      moreover from b w(5) [of b] w(7) [of b] have "b < n" by (auto simp: n_def)
      ultimately show "map_option shape (heap st1 b) = map_option shape (heap st b)
          \<and> registry st1 b = registry st b"
        using e4 [of b] registry_eq [OF e6 [of b]] by simp
    qed
    show "distinct (fp T')"
      unfolding T'_def
    proof (rule distinct_fp_substt [OF u(1) w(4)])
      show "distinct (fp u')" using lt by (simp add: fpu')
      have "b \<notin> set (fp T)" if "n \<le> b" for b using old_none [OF that] w(5) [of b] by simp
      then show "set (fp u') \<inter> (set (fp T) - set (fp u)) = {}"
        by (auto simp: fpu fpu')
    qed
    show "heap st1 b \<noteq> None \<longleftrightarrow> b \<in> set (fp T')" for b
    proof (cases "b = a \<or> b = ph")
      case True
      with e2 e3 neq lt show ?thesis by (auto simp: setT')
    next
      case False
      show ?thesis
      proof (cases "b < n")
        case True
        with False e4 [of b] w(5) [of b] show ?thesis by (auto simp: setT')
      next
        case ge: False
        show ?thesis
        proof (cases "b < n + span es")
          case True
          with ge new_alloc [of b] show ?thesis by (auto simp: setT')
        next
          case False
          with ge \<open>\<not> (b = a \<or> b = ph)\<close> e4 [of b] old_none [of b] w(5) [of b]
          show ?thesis by (auto simp: setT')
        qed
      qed
    qed
    show "heap st1 b \<noteq> None" if r: "itemElementMap st1 b \<noteq> None" for b
    proof (cases "n \<le> b \<and> b < n + span es")
      case True
      then show ?thesis by (simp add: new_alloc)
    next
      case False
      from r e5 have ba: "b \<noteq> a" by auto
      from ba False have "itemElementMap st1 b = itemElementMap st b" by (intro e6) auto
      with r have rb: "itemElementMap st b \<noteq> None" by simp
      with f(7) have bp: "b \<noteq> ph" by auto
      from ba bp False have "heap st1 b = heap st b" by (intro e4) auto
      with w(6) [OF rb] show ?thesis by simp
    qed
    show "b < next_ptr st1" if "heap st1 b \<noteq> None" for b
    proof (rule ccontr)
      assume "\<not> b < next_ptr st1"
      then have ge: "n + span es \<le> b" by (simp add: fields)
      with lt have "b \<noteq> a" "b \<noteq> ph" by auto
      with ge e4 [of b] old_none [of b] that show False by simp
    qed
    show "lastSearchText st1 = []" if "lastMatch st1 = None"
      using that w(8) by (simp add: fields)
    show "m \<in> set (nodes T')" if "lastMatch st1 = Some m" for m
      unfolding T'_def
      by (rule nodes_substt [OF u(1) vu'(1) leaf]) (use that w(9) in \<open>simp_all add: fields\<close>)
  qed
  moreover have "kept st st1"
    unfolding kept_def
  proof (intro conjI allI impI)
    show "next_ptr st \<le> next_ptr st1" by (simp add: fields n_def)
    fix b assume "b < next_ptr st"
    then have "b < n" by (simp add: n_def)
    show "case heap st1 b of None \<Rightarrow> True
          | Some it' \<Rightarrow> (case heap st b of None \<Rightarrow> False
               | Some it \<Rightarrow> selected it' = selected it \<and> expanded it' = expanded it)"
    proof (cases "b = a \<or> b = ph")
      case True
      with e2 e3 it show ?thesis by auto
    next
      case False
      with \<open>b < n\<close> e4 [of b] show ?thesis by (auto split: option.splits)
    qed
  qed
  moreover have "\<exists>h r m. st1 = st\<lparr>heap := h, next_ptr := m, itemElementMap := r\<rparr>"
    using e1 by blast
  moreover have "grows st st1"
    unfolding grows_def
  proof (intro conjI allI impI)
    show "next_ptr st \<le> next_ptr st1" by (simp add: fields n_def)
    fix b assume b: "b < next_ptr st" "itemElementMap st1 b \<noteq> None"
    with e5 have "b \<noteq> a" by auto
    with b(1) show "itemElementMap st1 b = itemElementMap st b" by (intro e6) (simp_all add: n_def)
  qed
  moreover have "fresh st \<longrightarrow> fresh st1"
  proof
    assume fr: "fresh st"
    show "fresh st1"
      unfolding fresh_def
    proof (intro allI impI)
      fix b hd
      assume hd: "itemElementMap st1 b = Some hd"
      show "fst hd = parser_doc st1"
      proof (cases "n \<le> b \<and> b < n + span es")
        case True
        with e8 [of b] hd show ?thesis by (simp add: fields)
      next
        case False
        from hd e5 have "b \<noteq> a" by auto
        with False have "itemElementMap st1 b = itemElementMap st b" by (intro e6) auto
        with hd have "itemElementMap st b = Some hd" by simp
        with fr have "fst hd = parser_doc st" unfolding fresh_def by blast
        then show ?thesis by (simp add: fields)
      qed
    qed
  qed
  ultimately show ?thesis
    using run f(10) it e2 unfolding T'_def u'_def kids_def n_def es_def dp_def by blast
qed


section \<open>The labels of the children\<close>

lemma sint_index: "i < 2 ^ 31 \<Longrightarrow> sint (word_of_nat i :: 32 word) = int i"
  by (simp add: signed_of_nat signed_take_bit_int_eq_self)

lemma to_string_int_nat: "to_string_int (int i) = to_string_nat i"
  by (simp add: to_string_int_def)

lemma array_keys_small:
  "n \<le> 2 ^ 31 \<Longrightarrow> array_keys n = map to_string_nat [0..<n]"
  by (simp add: array_keys_def sint_index to_string_int_nat)

lemma add_members_texts:
  assumes "heap st item = Some it" "item < next_ptr st"
  shows "\<exists>st'. add_members item es st = Some st'
     \<and> heap st' item = Some (it\<lparr>children := children it @ child_addrs (next_ptr st) es\<rparr>)
     \<and> (\<forall>b. b \<noteq> item \<longrightarrow> b < next_ptr st \<longrightarrow> heap st' b = heap st b)
     \<and> map (\<lambda>c. map_option text0 (heap st' c)) (child_addrs (next_ptr st) es)
         = map (\<lambda>(key, v). Some (label_of (decimal_point st) key v)) es
     \<and> (\<forall>c \<in> set (child_addrs (next_ptr st) es). next_ptr st \<le> c)"
  using assms
proof (induction es arbitrary: st it)
  case Nil
  then show ?case by simp
next
  case (Cons e es)
  obtain key v where e: "e = (key, v)" by (cases e)
  define n where "n = next_ptr st"
  define dp where "dp = decimal_point st"
  define n1 where "n1 = (if is_container v then Suc (Suc n) else Suc n)"
  define it1 where "it1 = it\<lparr>children := children it @ [n]\<rparr>"
  from Cons.prems(2) have neq: "item \<noteq> n" "item \<noteq> Suc n" by (simp_all add: n_def)
  define st1 where "st1 =
     (if is_container v
      then st\<lparr>heap := (heap st)(n \<mapsto> child_item dp item key v n, item \<mapsto> it1,
                                  Suc n \<mapsto> dummy_item n),
              next_ptr := Suc (Suc n),
              itemElementMap := (itemElementMap st)(n \<mapsto> (parser_doc st, v))\<rparr>
      else st\<lparr>heap := (heap st)(n \<mapsto> child_item dp item key v n, item \<mapsto> it1),
              next_ptr := Suc n\<rparr>)"
  have step: "add_child item key v st = Some st1"
    using add_child_scalar [OF Cons.prems(1,2), of v key]
      add_child_container [OF Cons.prems(1,2), of v key]
    by (simp add: st1_def n_def it1_def dp_def)
  have h1: "heap st1 item = Some it1" using neq by (simp add: st1_def)
  have n1: "next_ptr st1 = n1" by (simp add: st1_def n1_def)
  have env1: "decimal_point st1 = dp" by (simp add: st1_def dp_def)
  have hn: "map_option text0 (heap st1 n) = Some (label_of dp key v)"
    using neq by (simp add: st1_def child_item_def)
  have old: "heap st1 b = heap st b" if "b \<noteq> item" "b < n" for b
    using that by (simp add: st1_def)
  have lt1: "item < next_ptr st1" using Cons.prems(2) by (simp add: n1 n1_def n_def)
  from Cons.IH [OF h1 lt1] obtain st' where st': "add_members item es st1 = Some st'"
    and a: "heap st' item = Some (it1\<lparr>children := children it1 @ child_addrs n1 es\<rparr>)"
    and b: "\<And>b. b \<noteq> item \<Longrightarrow> b < n1 \<Longrightarrow> heap st' b = heap st1 b"
    and c: "map (\<lambda>c. map_option text0 (heap st' c)) (child_addrs n1 es)
         = map (\<lambda>(key, v). Some (label_of dp key v)) es"
    and d: "\<forall>c \<in> set (child_addrs n1 es). n1 \<le> c"
    unfolding n1 env1 by blast
  have ca: "child_addrs n (e # es) = n # child_addrs n1 es" by (simp add: e n1_def)
  have nn1: "n < n1" by (simp add: n1_def)
  have "add_members item (e # es) st = Some st'" using step st' by (simp add: e)
  moreover have "heap st' item = Some (it\<lparr>children := children it @ child_addrs n (e # es)\<rparr>)"
    using a by (simp add: it1_def ca)
  moreover have "heap st' b = heap st b" if "b \<noteq> item" "b < n" for b
    using that b [of b] old [of b] nn1 by simp
  moreover have "map (\<lambda>c. map_option text0 (heap st' c)) (child_addrs n (e # es))
         = map (\<lambda>(key, v). Some (label_of dp key v)) (e # es)"
  proof -
    from b [of n] neq nn1 have "heap st' n = heap st1 n" by simp
    with hn have "map_option text0 (heap st' n) = Some (label_of dp key v)" by simp
    with c show ?thesis by (simp only: ca [unfolded e] e list.map prod.case)
  qed
  moreover have "\<forall>c \<in> set (child_addrs n (e # es)). n \<le> c"
    using d nn1 by (auto simp: ca)
  ultimately show ?case unfolding n_def dp_def by blast
qed

lemma length_child_addrs [simp]: "length (child_addrs n es) = length es"
  by (induction n es rule: child_addrs.induct) auto



text \<open>
  Claim C8. For an item that is allocated, \<open>add_children_to_item\<close> with an object appends
  one child for each member, in the order of the members, with the text
  \<open>key + ": " + value\<close>; with an array it appends one child for each element, in the order of
  the elements, with the decimal index from 0 as the key. The index is an \<open>int\<close>, so the
  array has at most \<open>2^31\<close> elements.
\<close>

theorem add_children_to_item_labels:
  assumes "heap st item = Some it" and "item < next_ptr st"
  shows "(\<exists>st' it' new.
            add_children_to_item item (OBJECT obj) st = Some st' \<and> heap st' item = Some it'
            \<and> children it' = children it @ new \<and> length new = length obj
            \<and> map (\<lambda>c. map_option text0 (heap st' c)) new
                = map (\<lambda>(key, v). Some (key @ '': '' @ dvalue (get_json_element_display (decimal_point st) v))) obj)
       \<and> (length arr \<le> 2 ^ 31 \<longrightarrow>
           (\<exists>st' it' new.
              add_children_to_item item (ARRAY arr) st = Some st' \<and> heap st' item = Some it'
              \<and> children it' = children it @ new \<and> length new = length arr
              \<and> map (\<lambda>c. map_option text0 (heap st' c)) new
                  = map (\<lambda>(i, v). Some (to_string_nat i @ '': ''
                                          @ dvalue (get_json_element_display (decimal_point st) v)))
                      (zip [0..<length arr] arr)))"
proof (intro conjI impI)
  from add_members_texts [OF assms, of obj] obtain st' where
    "add_members item obj st = Some st'"
    "heap st' item = Some (it\<lparr>children := children it @ child_addrs (next_ptr st) obj\<rparr>)"
    "map (\<lambda>c. map_option text0 (heap st' c)) (child_addrs (next_ptr st) obj)
         = map (\<lambda>(key, v). Some (label_of (decimal_point st) key v)) obj"
    by blast
  then show "\<exists>st' it' new.
            add_children_to_item item (OBJECT obj) st = Some st' \<and> heap st' item = Some it'
            \<and> children it' = children it @ new \<and> length new = length obj
            \<and> map (\<lambda>c. map_option text0 (heap st' c)) new
                = map (\<lambda>(key, v). Some (key @ '': '' @ dvalue (get_json_element_display (decimal_point st) v))) obj"
    by (intro exI [of _ st'] exI [of _ "it\<lparr>children := children it @ child_addrs (next_ptr st) obj\<rparr>"]
        exI [of _ "child_addrs (next_ptr st) obj"])
      (simp add: add_children_to_item_entries label_of_def)
next
  assume len: "length arr \<le> 2 ^ 31"
  define es where "es = entries (ARRAY arr)"
  have es: "es = zip (map to_string_nat [0..<length arr]) arr"
    using len by (simp add: es_def array_keys_small)
  have labels: "map (\<lambda>(key, v). Some (label_of (decimal_point st) key v)) es
      = map (\<lambda>(i, v). Some (to_string_nat i @ '': '' @ dvalue (get_json_element_display (decimal_point st) v)))
          (zip [0..<length arr] arr)"
    by (simp add: es zip_map1 label_of_def case_prod_unfold)
  from add_members_texts [OF assms, of es] obtain st' where
    "add_members item es st = Some st'"
    "heap st' item = Some (it\<lparr>children := children it @ child_addrs (next_ptr st) es\<rparr>)"
    "map (\<lambda>c. map_option text0 (heap st' c)) (child_addrs (next_ptr st) es)
         = map (\<lambda>(key, v). Some (label_of (decimal_point st) key v)) es"
    by blast
  moreover have "length es = length arr" by (simp add: es)
  moreover have "add_children_to_item item (ARRAY arr) st = add_members item es st"
    by (simp only: add_children_to_item_entries es_def)
  ultimately show "\<exists>st' it' new.
              add_children_to_item item (ARRAY arr) st = Some st' \<and> heap st' item = Some it'
              \<and> children it' = children it @ new \<and> length new = length arr
              \<and> map (\<lambda>c. map_option text0 (heap st' c)) new
                  = map (\<lambda>(i, v). Some (to_string_nat i @ '': ''
                                          @ dvalue (get_json_element_display (decimal_point st) v)))
                      (zip [0..<length arr] arr)"
    by (intro exI [of _ st'] exI [of _ "it\<lparr>children := children it @ child_addrs (next_ptr st) es\<rparr>"]
        exI [of _ "child_addrs (next_ptr st) es"])
      (simp add: labels)
qed

theorem add_children_to_item_labels_witness:
  "heap example_root 0 = Some (item0 [] None [] None) \<and> 0 < next_ptr example_root
   \<and> (\<exists>st' it' new.
         add_children_to_item 0 (OBJECT [(''a'', INT64 1), (''b'', INT64 2)]) example_root = Some st'
         \<and> heap st' 0 = Some it' \<and> children it' = new \<and> length new = 2
         \<and> map (\<lambda>c. map_option text0 (heap st' c)) new = [Some ''a: 1'', Some ''b: 2''])
   \<and> length [INT64 10, INT64 20] \<le> (2::nat) ^ 31
   \<and> (\<exists>st' it' new.
         add_children_to_item 0 (ARRAY [INT64 10, INT64 20]) example_root = Some st'
         \<and> heap st' 0 = Some it' \<and> children it' = new \<and> length new = 2
         \<and> map (\<lambda>c. map_option text0 (heap st' c)) new = [Some ''0: 10'', Some ''1: 20''])"
proof -
  have h: "heap example_root 0 = Some (item0 [] None [] None)" "0 < next_ptr example_root"
    by (simp_all add: example_root_def)
  have l: "length [INT64 10, INT64 20] \<le> (2::nat) ^ 31" by simp
  from add_children_to_item_labels [OF h, of "[(''a'', INT64 1), (''b'', INT64 2)]"
      "[INT64 10, INT64 20]"] h l
  show ?thesis
    by (simp add: item0_def eval_to_string) (simp add: numeral_2_eq_2)
qed

section \<open>The order of the search\<close>

lemma bfs_started:
  "bfs m lm q True = map_option fst (find (\<lambda>x. m (llabel (snd x))) (bfs_order q))"
proof (induction q rule: bfs_order.induct)
  case 1
  then show ?case by simp
next
  case (2 x q)
  obtain p t where x: "x = (p, t)" by (cases x)
  with 2 show ?case by simp
qed

lemma bfs_started_lm: "bfs m lm q True = bfs m lm' q True"
  by (simp add: bfs_started)




lemma next_level_append: "next_level (q @ r) = next_level q @ next_level r"
  by (simp add: next_level_def)

lemma next_level_concat: "next_level (concat qs) = concat (map next_level qs)"
  by (induction qs) (simp_all add: next_level_append, simp add: next_level_def)









section \<open>The search loop on a represented tree\<close>

lemma lkids_erase [simp]: "lkids (erase t) = map erase (vkids t)"
  by (cases t) simp

lemma llabel_erase [simp]: "llabel (erase t) = vlabel t"
  by (cases t) simp








lemma qrel_Nil [simp]: "qrel T [] [] "
  by (simp add: qrel_def)







lemma searchTree_loop_Cons:
  "searchTree_loop searchText cs (current # rest) started st =
     (case heap st current of
        None \<Rightarrow> None
      | Some it \<Rightarrow>
          if started \<and> QString_contains (text0 it) searchText cs then
            (case select_match current st of
               None \<Rightarrow> None
             | Some st1 \<Rightarrow> Some (True, st1))
          else
            (case on_treeWidget_itemExpanded current st of
               None \<Rightarrow> None
             | Some st1 \<Rightarrow>
                 (case heap st1 current of
                    None \<Rightarrow> None
                  | Some it1 \<Rightarrow>
                      searchTree_loop searchText cs (rest @ children it1)
                        (started \<or> lastMatch st = Some current) st1)))"
  by (subst searchTree_loop.simps) simp


lemma searchTree_loop_step:
  assumes "heap st current = Some it" "\<not> (started \<and> QString_contains (text0 it) searchText cs)"
    "on_treeWidget_itemExpanded current st = Some st1" "heap st1 current = Some it1"
  shows "searchTree_loop searchText cs (current # rest) started st
     = searchTree_loop searchText cs (rest @ children it1) (started \<or> lastMatch st = Some current) st1"
  using assms by (auto simp: searchTree_loop_Cons)

lemma searchTree_loop_Nil: "searchTree_loop searchText cs [] started st = Some (False, st)"
  by (subst searchTree_loop.simps) simp

lemma vaddr_status:
  "vaddr w = Some a \<Longrightarrow>
     (\<exists>l ks. w = VNode (Real a) l ks) \<or> (\<exists>ph l vs. w = VNode (Pending a ph) l vs)"
  by (cases w; cases "vstatus w") (auto simp: vaddr_def)



section \<open>The first match of a search\<close>












section \<open>The resumed search\<close>













section \<open>Search next without a further match\<close>















section \<open>The stored query\<close>

lemma query_kept_refl [simp]: "query_kept st st"
  by (simp add: query_kept_def)

lemma query_kept_trans: "query_kept st st1 \<Longrightarrow> query_kept st1 st2 \<Longrightarrow> query_kept st st2"
  by (simp add: query_kept_def)

lemma new_QTreeWidgetItem_kept:
  "new_QTreeWidgetItem s st = (n, st') \<Longrightarrow> query_kept st st'"
  by (auto simp: new_QTreeWidgetItem_def query_kept_def Let_def)

lemma setForeground_kept: "setForeground a c st = Some st' \<Longrightarrow> query_kept st st'"
  by (auto simp: setForeground_def query_kept_def split: option.splits)

lemma addChild_kept: "addChild a c st = Some st' \<Longrightarrow> query_kept st st'"
  by (auto simp: addChild_def query_kept_def Let_def split: option.splits if_splits)

lemma add_child_kept:
  assumes "add_child item key v st = Some st'"
  shows "query_kept st st'"
proof -
  define d where "d = get_json_element_display (decimal_point st) v"
  obtain child st1 where n1: "new_QTreeWidgetItem (key @ '': '' @ dvalue d) st = (child, st1)"
    by (cases "new_QTreeWidgetItem (key @ '': '' @ dvalue d) st")
  from assms n1 obtain st2 where s2: "setForeground child (color d) st1 = Some st2"
    by (auto simp: add_child_def d_def split: option.splits)
  from assms n1 s2 obtain st3 where s3: "addChild item child st2 = Some st3"
    by (auto simp: add_child_def d_def split: option.splits)
  note k3 = query_kept_trans [OF query_kept_trans [OF new_QTreeWidgetItem_kept [OF n1]
        setForeground_kept [OF s2]] addChild_kept [OF s3]]
  show ?thesis
  proof (cases "elem_type v = T_OBJECT \<or> elem_type v = T_ARRAY")
    case False
    with assms n1 s2 s3 have "st' = st3" by (simp add: add_child_def d_def)
    with k3 show ?thesis by simp
  next
    case True
    obtain dummy st4 where n4: "new_QTreeWidgetItem [] st3 = (dummy, st4)"
      by (cases "new_QTreeWidgetItem [] st3")
    from assms n1 s2 s3 True n4 obtain st5 where s5: "addChild child dummy st4 = Some st5"
      and e: "st' = st5\<lparr>itemElementMap := (itemElementMap st5)(child \<mapsto> (parser_doc st5, v))\<rparr>"
      by (auto simp: add_child_def d_def split: option.splits)
    from query_kept_trans [OF query_kept_trans [OF k3 new_QTreeWidgetItem_kept [OF n4]]
        addChild_kept [OF s5]] e
    show ?thesis by (simp add: query_kept_def)
  qed
qed

lemma add_members_kept: "add_members item es st = Some st' \<Longrightarrow> query_kept st st'"
proof (induction es arbitrary: st)
  case Nil
  then show ?case by simp
next
  case (Cons e es)
  obtain key v where e: "e = (key, v)" by (cases e)
  from Cons.prems obtain st1 where s: "add_child item key v st = Some st1"
    "add_members item es st1 = Some st'"
    by (auto simp: e split: option.splits)
  from add_child_kept [OF s(1)] Cons.IH [OF s(2)] show ?case by (rule query_kept_trans)
qed

lemma add_children_to_item_kept:
  "add_children_to_item item el st = Some st' \<Longrightarrow> query_kept st st'"
  unfolding add_children_to_item_entries by (rule add_members_kept)

lemma delete_takeChild0_kept: "delete_takeChild0 item st = Some st' \<Longrightarrow> query_kept st st'"
  by (auto simp: delete_takeChild0_def Let_def query_kept_def split: option.splits list.splits)

lemma on_treeWidget_itemExpanded_kept:
  assumes "on_treeWidget_itemExpanded item st = Some st'"
  shows "query_kept st st'"
proof (cases "itemElementMap st item")
  case None
  with assms show ?thesis by (simp add: on_treeWidget_itemExpanded_def)
next
  case (Some element)
  from assms Some obtain st1 el st2 where
    a: "st1 = st \<or> delete_takeChild0 item st = Some st1"
    and b: "add_children_to_item item el st1 = Some st2"
    and c: "st' = st2\<lparr>itemElementMap := (itemElementMap st2)(item := None)\<rparr>"
    by (auto simp: on_treeWidget_itemExpanded_def split: option.splits list.splits if_splits)
  from a have "query_kept st st1" by (auto intro: delete_takeChild0_kept)
  from query_kept_trans [OF this add_children_to_item_kept [OF b]] c show ?thesis
    by (simp add: query_kept_def)
qed


lemma expand_parents_kept:
  assumes "expand_parents p st = Some st'"
  shows "query_kept st st' \<and> (\<forall>b. map_option text0 (heap st' b) = map_option text0 (heap st b))"
proof (rule expand_parents.raw_induct
    [where P = "\<lambda>p st st'. query_kept st st'
        \<and> (\<forall>b. map_option text0 (heap st' b) = map_option text0 (heap st b))", OF _ assms],
    goal_cases)
  case (1 f p st st')
  show ?case
  proof (cases p)
    case None
    with 1(2) show ?thesis by simp
  next
    case (Some a)
    with 1(2) obtain it where it: "heap st a = Some it"
      and r: "f (parent it) (st\<lparr>heap := (heap st)(a \<mapsto> it\<lparr>expanded := True\<rparr>)\<rparr>) = Some st'"
      by (auto split: option.splits)
    from 1(1) [OF r] it show ?thesis by (auto simp: query_kept_def)
  qed
qed

lemma select_match_result:
  assumes "select_match a st = Some st'"
  shows "textEdit st' = textEdit st" "radioCapital st' = radioCapital st"
    "lastSearchText st' = lastSearchText st" "messages st' = messages st"
    "lastMatch st' = Some a"
    "map_option text0 (heap st' b) = map_option text0 (heap st b)"
proof -
  from assms obtain st1 where s1: "setSelected a (clearSelection st) = Some st1"
    by (cases "setSelected a (clearSelection st)") (simp_all add: select_match_def)
  from assms s1 obtain it where it: "heap st1 a = Some it"
    by (cases "heap st1 a") (simp_all add: select_match_def)
  from assms s1 it obtain st2 where e: "expand_parents (parent it) st1 = Some st2"
    by (cases "expand_parents (parent it) st1") (simp_all add: select_match_def)
  from assms s1 it e have st': "st' = st2\<lparr>scrolledTo := Some a, lastMatch := Some a\<rparr>"
    by (simp add: select_match_def)
  from s1 obtain it0 where it0: "heap st a = Some it0"
    and st1: "st1 = st\<lparr>heap := (\<lambda>a. map_option (\<lambda>it. it\<lparr>selected := False\<rparr>) (heap st a))
                (a \<mapsto> it0\<lparr>selected := True\<rparr>)\<rparr>"
    by (auto simp: setSelected_def clearSelection_def split: option.splits)
  have k1: "query_kept st st1" by (simp add: st1 query_kept_def)
  have t1: "map_option text0 (heap st1 b) = map_option text0 (heap st b)"
    using it0 by (cases "heap st b") (auto simp: st1)
  from expand_parents_kept [OF e] have k2: "query_kept st1 st2"
    and t2: "map_option text0 (heap st2 b) = map_option text0 (heap st1 b)" by simp_all
  from k1 k2 show "textEdit st' = textEdit st" "radioCapital st' = radioCapital st"
    "lastSearchText st' = lastSearchText st" "messages st' = messages st"
    by (simp_all add: st' query_kept_def)
  show "lastMatch st' = Some a" by (simp add: st')
  from t1 t2 show "map_option text0 (heap st' b) = map_option text0 (heap st b)"
    by (simp add: st')
qed

lemma searchTree_loop_result:
  assumes "searchTree_loop searchText cs queue started st = Some r"
  shows "textEdit (snd r) = textEdit st \<and> radioCapital (snd r) = radioCapital st
     \<and> lastSearchText (snd r) = lastSearchText st \<and> messages (snd r) = messages st
     \<and> (if fst r then match_recorded searchText cs (snd r)
         else lastMatch (snd r) = lastMatch st)"
proof (rule searchTree_loop.raw_induct
    [where P = "\<lambda>searchText cs queue started st r.
       textEdit (snd r) = textEdit st \<and> radioCapital (snd r) = radioCapital st
       \<and> lastSearchText (snd r) = lastSearchText st \<and> messages (snd r) = messages st
       \<and> (if fst r then match_recorded searchText cs (snd r)
           else lastMatch (snd r) = lastMatch st)", OF _ assms],
    goal_cases)
  case (1 f searchText cs queue started st r)
  show ?case
  proof (cases queue)
    case Nil
    with 1(2) show ?thesis by auto
  next
    case (Cons current rest)
    with 1(2) obtain it where it: "heap st current = Some it" by (auto split: option.splits)
    show ?thesis
    proof (cases "started \<and> QString_contains (text0 it) searchText cs")
      case True
      with 1(2) Cons it
      have body: "(case select_match current st of None \<Rightarrow> None
                   | Some st1 \<Rightarrow> Some (True, st1)) = Some r"
        by simp
      then obtain st1 where s: "select_match current st = Some st1"
        by (cases "select_match current st") simp_all
      from body s have r: "r = (True, st1)" by simp
      note g = select_match_result [OF s]
      from g(6) [of current] it obtain it1 where "heap st1 current = Some it1"
        "text0 it1 = text0 it" by (cases "heap st1 current") auto
      with g(5) True have "match_recorded searchText cs st1" by (simp add: match_recorded_def)
      with g(1-4) show ?thesis by (simp add: r)
    next
      case False
      from 1(2) Cons it False
      have body: "(case on_treeWidget_itemExpanded current st of
                     None \<Rightarrow> None
                   | Some st1 \<Rightarrow>
                       (case heap st1 current of
                          None \<Rightarrow> None
                        | Some it1 \<Rightarrow>
                            f searchText cs (rest @ children it1)
                              (started \<or> lastMatch st = Some current) st1)) = Some r"
        by simp
      then obtain st1 where ex: "on_treeWidget_itemExpanded current st = Some st1"
        by (cases "on_treeWidget_itemExpanded current st") simp_all
      from body ex obtain it1 where it1: "heap st1 current = Some it1"
        by (cases "heap st1 current") simp_all
      from body ex it1 have rec: "f searchText cs (rest @ children it1)
                    (started \<or> lastMatch st = Some current) st1 = Some r"
        by simp
      from on_treeWidget_itemExpanded_kept [OF ex] 1(1) [OF rec] show ?thesis
        by (simp add: query_kept_def)
    qed
  qed
qed

lemma searchTree_result:
  assumes "searchTree a searchText startFromCurrent searchArrays st = Some (found, st')"
  shows "textEdit st' = textEdit st" "radioCapital st' = radioCapital st"
    "lastSearchText st' = lastSearchText st" "messages st' = messages st"
    "found \<Longrightarrow> match_recorded searchText (radioCapital st) st'"
    "\<not> found \<Longrightarrow> lastMatch st' = lastMatch st"
  using searchTree_loop_result [OF assms [unfolded searchTree_def]] by simp_all

lemma match_recorded_lastSearchText [simp]:
  "match_recorded s cs (st\<lparr>lastSearchText := x\<rparr>) = match_recorded s cs st"
  by (cases "lastMatch st") (simp_all add: match_recorded_def)

lemma match_recorded_lastMatch: "match_recorded s cs st \<Longrightarrow> lastMatch st \<noteq> None"
  by (cases "lastMatch st") (simp_all add: match_recorded_def)

lemma search_top_level_result:
  assumes "search_top_level searchText items st = Some st'"
  shows "textEdit st' = textEdit st \<and> radioCapital st' = radioCapital st
     \<and> (lastSearchText st' = lastSearchText st \<and> lastMatch st' = lastMatch st
          \<and> messages st' = messages st @ [''Search text not found'']
        \<or> lastSearchText st' = searchText \<and> messages st' = messages st
          \<and> match_recorded searchText (radioCapital st) st')"
  using assms
proof (induction items arbitrary: st)
  case Nil
  then show ?case by (auto simp: qInfo_def)
next
  case (Cons a items)
  from Cons.prems obtain found st1 where
    run: "searchTree a searchText False True st = Some (found, st1)"
    by (cases "searchTree a searchText False True st") auto
  note f = searchTree_result [OF run]
  show ?case
  proof (cases found)
    case True
    with run Cons.prems have st': "st' = st1\<lparr>lastSearchText := searchText\<rparr>" by simp
    from f(5) [OF True] have "match_recorded searchText (radioCapital st) st'"
      by (simp add: st')
    with f(1-4) show ?thesis by (simp add: st')
  next
    case False
    with run Cons.prems have "search_top_level searchText items st1 = Some st'" by simp
    from Cons.IH [OF this] f(1-4) f(6) [OF False] show ?thesis by auto
  qed
qed

lemma textChanged_result:
  assumes "on_textEdit_textChanged st = Some st'"
  shows "textEdit st' = textEdit st \<and> radioCapital st' = radioCapital st
     \<and> (textEdit st = [] \<and> st' = st
        \<or> textEdit st \<noteq> [] \<and> lastSearchText st' = lastSearchText st \<and> lastMatch st' = lastMatch st
          \<and> messages st' = messages st @ [''Search text not found'']
        \<or> textEdit st \<noteq> [] \<and> lastSearchText st' = textEdit st \<and> messages st' = messages st
          \<and> match_recorded (textEdit st) (radioCapital st) st')"
proof (cases "textEdit st = []")
  case True
  with assms show ?thesis by (auto simp: on_textEdit_textChanged_def)
next
  case False
  show ?thesis
  proof (cases "currentItem st")
    case None
    from assms False None
    have "search_top_level (textEdit st) (topLevelItems st) st = Some st'"
      by (simp add: on_textEdit_textChanged_def)
    from search_top_level_result [OF this] False show ?thesis by simp
  next
    case (Some c)
    with assms False obtain found st1 where
      run: "searchTree c (textEdit st) False True st = Some (found, st1)"
      by (cases "searchTree c (textEdit st) False True st")
        (auto simp: on_textEdit_textChanged_def)
    note f = searchTree_result [OF run]
    show ?thesis
    proof (cases found)
      case True
      have st': "st' = st1\<lparr>lastSearchText := textEdit st\<rparr>"
        using assms False Some run True by (simp add: on_textEdit_textChanged_def)
      from f(5) [OF True] have "match_recorded (textEdit st) (radioCapital st) st'"
        by (simp add: st')
      with f(1-4) False show ?thesis by (simp add: st')
    next
      case F: False
      have "st' = qInfo ''Search text not found'' st1"
        using assms False Some run F by (simp add: on_textEdit_textChanged_def)
      with f(1-4) f(6) [OF F] False show ?thesis by (simp add: qInfo_def)
    qed
  qed
qed

lemma load_query_kept:
  assumes "on_loadBtn_clicked r st = Some st'"
  shows "textEdit st' = textEdit st \<and> lastSearchText st' = lastSearchText st
     \<and> lastMatch st' = lastMatch st"
proof (cases r)
  case Cancelled
  with assms show ?thesis by (simp add: on_loadBtn_clicked_def)
next
  case (ReadError e)
  with assms show ?thesis by (auto simp: on_loadBtn_clicked_def qInfo_def)
next
  case (ParseError e)
  with assms show ?thesis by (auto simp: on_loadBtn_clicked_def qInfo_def)
next
  case (Parsed doc)
  define st0 where "st0 = st\<lparr>parser_doc := Suc (parser_doc st)\<rparr>"
  obtain root st1 where n: "new_QTreeWidgetItem [] st0 = (root, st1)"
    by (cases "new_QTreeWidgetItem [] st0")
  from assms Parsed n obtain st2 where a: "add_children_to_item root doc st1 = Some st2"
    and e: "st' = st2\<lparr>topLevelItems := root # topLevelItems st2\<rparr>"
    by (auto simp: on_loadBtn_clicked_def st0_def split: option.splits)
  have "query_kept st st0" by (simp add: st0_def query_kept_def)
  from query_kept_trans [OF query_kept_trans [OF this new_QTreeWidgetItem_kept [OF n]]
      add_children_to_item_kept [OF a]] e
  show ?thesis by (simp add: query_kept_def)
qed

lemma next_top_level_result:
  assumes "next_top_level searchText items pastCurrentMatch st = Some st'"
  shows "textEdit st' = textEdit st \<and> lastSearchText st' = lastSearchText st
     \<and> (lastMatch st' = lastMatch st \<or> lastMatch st' \<noteq> None)"
  using assms
proof (induction items arbitrary: st pastCurrentMatch)
  case Nil
  then show ?case by (auto simp: qInfo_def)
next
  case (Cons a items)
  from Cons.prems obtain found st1 where
    run: "searchTree a searchText (\<not> pastCurrentMatch) False st = Some (found, st1)"
    by (cases "searchTree a searchText (\<not> pastCurrentMatch) False st") auto
  note f = searchTree_result [OF run]
  have lm1: "lastMatch st1 = lastMatch st \<or> lastMatch st1 \<noteq> None"
    using f(5,6) match_recorded_lastMatch by (cases found) auto
  show ?case
  proof (cases "found \<and> pastCurrentMatch")
    case True
    with run Cons.prems have "st' = st1" by auto
    with f(1,3) lm1 show ?thesis by simp
  next
    case False
    then obtain pcm where "next_top_level searchText items pcm st1 = Some st'"
      using run Cons.prems by (cases found; cases pastCurrentMatch) (auto split: if_splits)
    from Cons.IH [OF this] f(1,3) lm1 show ?thesis by auto
  qed
qed

lemma step_query:
  assumes "step e st = Some st'"
  shows "(textEdit st' = textEdit st \<or> e = EditText (textEdit st'))
     \<and> (lastSearchText st' = lastSearchText st
        \<or> ((\<exists>s. e = EditText s) \<or> (\<exists>c. e = Toggle c))
          \<and> lastSearchText st' = textEdit st' \<and> messages st' = messages st
          \<and> match_recorded (textEdit st') (radioCapital st') st')
     \<and> (lastMatch st' = lastMatch st \<and> lastSearchText st' = lastSearchText st
        \<or> lastMatch st' \<noteq> None)"
proof (cases e)
  case (Load r)
  with load_query_kept [of r st st'] assms show ?thesis by simp
next
  case (Expand item)
  with assms obtain it where it: "heap st item = Some it" by (auto split: option.splits)
  define st0 where "st0 = st\<lparr>heap := (heap st)(item \<mapsto> it\<lparr>expanded := True\<rparr>)\<rparr>"
  from assms Expand it have run: "on_treeWidget_itemExpanded item st0 = Some st'"
    by (simp add: st0_def)
  from on_treeWidget_itemExpanded_kept [OF run] show ?thesis
    by (simp add: st0_def query_kept_def)
next
  case (SetCurrent c)
  with assms have "st' = st\<lparr>currentItem := c\<rparr>" by (auto split: option.splits)
  then show ?thesis by simp
next
  case (EditText s)
  from assms EditText have "on_textEdit_textChanged (st\<lparr>textEdit := s\<rparr>) = Some st'" by simp
  from textChanged_result [OF this] EditText match_recorded_lastMatch [of "textEdit st'" "radioCapital st'" st']
  show ?thesis by auto
next
  case (Toggle checked)
  show ?thesis
  proof (cases "textEdit st = []")
    case True
    with assms Toggle have "st' = st\<lparr>radioCapital := checked\<rparr>"
      by (simp add: on_radioCapital_toggled_def)
    then show ?thesis by simp
  next
    case False
    with assms Toggle have "on_textEdit_textChanged (st\<lparr>radioCapital := checked\<rparr>) = Some st'"
      by (simp add: on_radioCapital_toggled_def)
    from textChanged_result [OF this] Toggle match_recorded_lastMatch [of "textEdit st'" "radioCapital st'" st']
    show ?thesis by auto
  qed
next
  case SearchNext
  show ?thesis
  proof (cases "textEdit st = [] \<or> textEdit st \<noteq> lastSearchText st")
    case True
    with assms SearchNext have "st' = st" by (auto simp: on_searchNextBtn_clicked_def)
    then show ?thesis by simp
  next
    case False
    from assms SearchNext False
    have "next_top_level (textEdit st) (topLevelItems st) (lastMatch st = None) st = Some st'"
      by (auto simp: on_searchNextBtn_clicked_def)
    from next_top_level_result [OF this] show ?thesis by auto
  qed
qed

lemma run_query:
  assumes "run es st0 = Some st"
  shows "(textEdit st = textEdit st0 \<or> EditText (textEdit st) \<in> set es)
     \<and> (lastSearchText st = lastSearchText st0 \<or> lastSearchText st = textEdit st0
          \<or> EditText (lastSearchText st) \<in> set es)
     \<and> ((lastMatch st0 = None \<longrightarrow> lastSearchText st0 = [])
          \<longrightarrow> (lastMatch st = None \<longrightarrow> lastSearchText st = []))"
  using assms
proof (induction es arbitrary: st0)
  case Nil
  then show ?case by simp
next
  case (Cons e es)
  from Cons.prems obtain st1 where s: "step e st0 = Some st1" "run es st1 = Some st"
    by (auto split: option.splits)
  from step_query [OF s(1)]
  have A: "textEdit st1 = textEdit st0 \<or> e = EditText (textEdit st1)"
    and B: "lastSearchText st1 = lastSearchText st0 \<or> lastSearchText st1 = textEdit st1"
    and E: "lastMatch st1 = lastMatch st0 \<and> lastSearchText st1 = lastSearchText st0
        \<or> lastMatch st1 \<noteq> None"
    by blast+
  note ih = Cons.IH [OF s(2)]
  from ih have C: "textEdit st = textEdit st1 \<or> EditText (textEdit st) \<in> set es"
    by (rule conjunct1)
  from ih [THEN conjunct2]
  have D: "lastSearchText st = lastSearchText st1 \<or> lastSearchText st = textEdit st1
          \<or> EditText (lastSearchText st) \<in> set es"
    by (rule conjunct1)
  from ih [THEN conjunct2]
  have F: "(lastMatch st1 = None \<longrightarrow> lastSearchText st1 = [])
          \<longrightarrow> (lastMatch st = None \<longrightarrow> lastSearchText st = [])"
    by (rule conjunct2)
  have 1: "textEdit st = textEdit st0 \<or> EditText (textEdit st) \<in> set (e # es)"
    using A C by auto
  have 2: "lastSearchText st = lastSearchText st0 \<or> lastSearchText st = textEdit st0
          \<or> EditText (lastSearchText st) \<in> set (e # es)"
    using A B D by auto
  have 3: "(lastMatch st0 = None \<longrightarrow> lastSearchText st0 = [])
          \<longrightarrow> (lastMatch st = None \<longrightarrow> lastSearchText st = [])"
    using E F by auto
  from 1 2 3 show ?case by blast
qed

text \<open>
  Claim C10. In every state the reader reaches from its initial state:

  \<^item> a step changes \<open>lastSearchText\<close> only when it is a search for the text of the text edit
    (after an edit or a toggle) that found a match: the new \<open>lastSearchText\<close> is that
    text, nothing was logged, and \<open>lastMatch\<close> is an item whose text contains it;
  \<^item> when the search after an edit to \<open>q\<close> logs \<open>Search text not found\<close> and \<open>q\<close> was not the
    stored query, search next in the resulting state returns that state unchanged;
  \<^item> in particular, when the search after the first edit to \<open>q\<close> logs
    \<open>Search text not found\<close>, search next in the resulting state returns that state
    unchanged;
  \<^item> when the guard of search next lets the query through, a last match is recorded.
\<close>

theorem lastSearchText_only_on_match:
  assumes "run es (initial point) = Some st"
  shows "(\<forall>e st'. step e st = Some st' \<and> lastSearchText st' \<noteq> lastSearchText st \<longrightarrow>
            ((\<exists>s. e = EditText s) \<or> (\<exists>c. e = Toggle c))
            \<and> lastSearchText st' = textEdit st' \<and> messages st' = messages st
            \<and> match_recorded (textEdit st') (radioCapital st') st')
    \<and> (\<forall>q st'. step (EditText q) st = Some st'
            \<and> messages st' = messages st @ [''Search text not found'']
            \<and> lastSearchText st \<noteq> q \<longrightarrow>
          lastSearchText st' = lastSearchText st \<and> on_searchNextBtn_clicked st' = Some st')
    \<and> (\<forall>q st'. EditText q \<notin> set es \<and> step (EditText q) st = Some st'
            \<and> messages st' = messages st @ [''Search text not found''] \<longrightarrow>
          lastSearchText st' \<noteq> q \<and> on_searchNextBtn_clicked st' = Some st')
    \<and> (textEdit st \<noteq> [] \<and> textEdit st = lastSearchText st \<longrightarrow> lastMatch st \<noteq> None)"
proof -
  have 1: "\<forall>e st'. step e st = Some st' \<and> lastSearchText st' \<noteq> lastSearchText st \<longrightarrow>
            ((\<exists>s. e = EditText s) \<or> (\<exists>c. e = Toggle c))
            \<and> lastSearchText st' = textEdit st' \<and> messages st' = messages st
            \<and> match_recorded (textEdit st') (radioCapital st') st'"
  proof (intro allI impI, elim conjE)
    fix e st' assume s: "step e st = Some st'" "lastSearchText st' \<noteq> lastSearchText st"
    from step_query [OF s(1)] s(2)
    show "((\<exists>s. e = EditText s) \<or> (\<exists>c. e = Toggle c))
            \<and> lastSearchText st' = textEdit st' \<and> messages st' = messages st
            \<and> match_recorded (textEdit st') (radioCapital st') st'" by blast
  qed
  have 2: "\<forall>q st'. step (EditText q) st = Some st'
            \<and> messages st' = messages st @ [''Search text not found'']
            \<and> lastSearchText st \<noteq> q \<longrightarrow>
          lastSearchText st' = lastSearchText st \<and> on_searchNextBtn_clicked st' = Some st'"
  proof (intro allI impI, elim conjE)
    fix q st'
    assume s: "step (EditText q) st = Some st'"
      "messages st' = messages st @ [''Search text not found'']" "lastSearchText st \<noteq> q"
    from s(1) have "on_textEdit_textChanged (st\<lparr>textEdit := q\<rparr>) = Some st'" by simp
    from textChanged_result [OF this] s(2)
    have r: "textEdit st' = q" "lastSearchText st' = lastSearchText st" by auto
    with s(3) have "on_searchNextBtn_clicked st' = Some st'"
      by (auto simp: on_searchNextBtn_clicked_def)
    with r(2) show "lastSearchText st' = lastSearchText st \<and> on_searchNextBtn_clicked st' = Some st'"
      by simp
  qed
  note rq = run_query [OF assms]
  have 3: "\<forall>q st'. EditText q \<notin> set es \<and> step (EditText q) st = Some st'
            \<and> messages st' = messages st @ [''Search text not found''] \<longrightarrow>
          lastSearchText st' \<noteq> q \<and> on_searchNextBtn_clicked st' = Some st'"
  proof (intro allI impI, elim conjE)
    fix q st'
    assume q: "EditText q \<notin> set es" and s: "step (EditText q) st = Some st'"
      "messages st' = messages st @ [''Search text not found'']"
    have "q \<noteq> []"
    proof
      assume "q = []"
      with s(1) have "st' = st\<lparr>textEdit := []\<rparr>" by (simp add: on_textEdit_textChanged_def)
      with s(2) show False by simp
    qed
    from rq have "lastSearchText st = [] \<or> EditText (lastSearchText st) \<in> set es"
      by (simp add: initial_def)
    with q \<open>q \<noteq> []\<close> have ne: "lastSearchText st \<noteq> q" by auto
    from 2 s ne have "lastSearchText st' = lastSearchText st"
      "on_searchNextBtn_clicked st' = Some st'" by blast+
    with ne show "lastSearchText st' \<noteq> q \<and> on_searchNextBtn_clicked st' = Some st'" by simp
  qed
  from rq have "lastMatch st = None \<longrightarrow> lastSearchText st = []" by (simp add: initial_def)
  then have 4: "textEdit st \<noteq> [] \<and> textEdit st = lastSearchText st \<longrightarrow> lastMatch st \<noteq> None"
    by (cases "lastMatch st") auto
  from 1 2 3 4 show ?thesis by (intro conjI)
qed

lemma example_contains_z:
  "\<not> QString_contains [] ''z'' False"
  "\<not> QString_contains ''k: OBJECT'' ''z'' False"
  "\<not> QString_contains ''x: true'' ''z'' False"
  by code_simp+

lemma example_search_z:
  "\<exists>st'. step (EditText ''z'') example_pending = Some st'
     \<and> messages st' = [''Search text not found''] \<and> textEdit st' = ''z''"
  by (simp add: on_textEdit_textChanged_def searchTree_def searchTree_loop_Cons
      searchTree_loop_Nil example_contains_z on_treeWidget_itemExpanded_def deref_def
      example_pending_def delete_takeChild0_def destroy.simps eval_items qInfo_def)

theorem lastSearchText_only_on_match_witness:
  "run [Load (Parsed example_doc)] (initial ''.'') = Some example_pending
   \<and> EditText ''z'' \<notin> set [Load (Parsed example_doc)]
   \<and> (\<exists>st'. step (EditText ''z'') example_pending = Some st'
         \<and> messages st' = messages example_pending @ [''Search text not found'']
         \<and> textEdit st' = ''z'' \<and> lastSearchText st' \<noteq> ''z''
         \<and> on_searchNextBtn_clicked st' = Some st')"
proof -
  have r: "run [Load (Parsed example_doc)] (initial ''.'') = Some example_pending"
    by (simp add: load_example)
  note inv = lastSearchText_only_on_match [OF r]
  note i3 = inv [THEN conjunct2, THEN conjunct2, THEN conjunct1, rule_format]
  have n: "EditText ''z'' \<notin> set [Load (Parsed example_doc)]" by simp
  have f: "messages example_pending = []" by (simp add: example_pending_def)
  from example_search_z obtain st' where s: "step (EditText ''z'') example_pending = Some st'"
    "messages st' = [''Search text not found'']" "textEdit st' = ''z''" by blast
  from s(2) have m: "messages st' = messages example_pending @ [''Search text not found'']"
    by (simp add: f)
  from i3 [of "''z''" st'] n s(1) m
  have "lastSearchText st' \<noteq> ''z''" "on_searchNextBtn_clicked st' = Some st'" by blast+
  with s m
  have "\<exists>st'. step (EditText ''z'') example_pending = Some st'
         \<and> messages st' = messages example_pending @ [''Search text not found'']
         \<and> textEdit st' = ''z'' \<and> lastSearchText st' \<noteq> ''z''
         \<and> on_searchNextBtn_clicked st' = Some st'" by blast
  with r n show ?thesis by (intro conjI)
qed

section \<open>The registry of pending items\<close>

lemma reprv_placeholder:
  "reprv dp h r par t \<Longrightarrow> a \<in> set (fp t) \<Longrightarrow> a \<notin> set (nodes t)
   \<Longrightarrow> \<exists>pt. h a = Some pt \<and> text0 pt = [] \<and> children pt = [] \<and> r a = None"
proof (induction t arbitrary: par)
  case (VNode s l ts)
  show ?case
  proof (cases s)
    case Top
    with VNode.prems obtain t where t: "t \<in> set ts" "a \<in> set (fp t)" "reprv dp h r None t"
      "a \<notin> set (nodes t)"
      by (auto simp: list_all_iff)
    from VNode.IH [OF t(1,3,2,4)] show ?thesis .
  next
    case (Real b)
    with VNode.prems obtain t where t: "t \<in> set ts" "a \<in> set (fp t)" "reprv dp h r (Some b) t"
      "a \<notin> set (nodes t)"
      by (auto simp: list_all_iff split: option.splits)
    from VNode.IH [OF t(1,3,2,4)] show ?thesis .
  next
    case (Pending b ph)
    with VNode.prems have "ts = map (virtual dp) (entries (the (r b)))"
      by (auto split: option.splits)
    then have "concat (map fp ts) = []" by simp
    with VNode.prems Pending have "a = ph" by auto
    with VNode.prems Pending show ?thesis by (auto split: option.splits)
  next
    case Virtual
    with VNode.prems show ?thesis by simp
  qed
qed


lemma registered_pending:
  assumes "wf_tree st T" "registry st a = Some el"
  shows "\<exists>p ph l vs. subt T p = Some (VNode (Pending a ph) l vs)"
proof -
  note w = wtD [OF assms(1)]
  from assms(2) have reg: "itemElementMap st a \<noteq> None" by (auto simp: registry_def)
  from w(6) [OF reg] w(5) [of a] have fp: "a \<in> set (fp T)" by simp
  have "a \<in> set (nodes T)"
  proof (rule ccontr)
    assume "a \<notin> set (nodes T)"
    from reprv_placeholder [OF w(3) fp this] reg show False by auto
  qed
  from nodes_subt [OF this] obtain p u where u: "subt T p = Some u" "vaddr u = Some a" by blast
  from wt_node [OF assms(1) u] obtain it par where
    it: "heap st a = Some it" and r: "reprv (decimal_point st) (heap st) (registry st) par u" by blast
  from vaddr_status [OF u(2)] show ?thesis
  proof (elim disjE exE)
    fix l ks assume "u = VNode (Real a) l ks"
    with r it reg show ?thesis by auto
  next
    fix ph l vs assume "u = VNode (Pending a ph) l vs"
    with u(1) show ?thesis by blast
  qed
qed

lemma real_children_texts:
  assumes "reprv dp h r par (VNode (Real a) l ks)"
  shows "\<exists>it. h a = Some it
     \<and> map (\<lambda>c. map_option text0 (h c)) (children it) = map (\<lambda>t. Some (vlabel t)) ks"
proof -
  from assms obtain it where it: "h a = Some it" "map Some (children it) = map vaddr ks"
    "list_all (\<lambda>t. reprv dp h r (Some a) t) ks"
    by (auto split: option.splits simp: list_all_iff)
  from it(2) have len: "length (children it) = length ks" by (metis length_map)
  have "map (\<lambda>c. map_option text0 (h c)) (children it) = map (\<lambda>t. Some (vlabel t)) ks"
  proof (rule nth_equalityI)
    show "length (map (\<lambda>c. map_option text0 (h c)) (children it))
        = length (map (\<lambda>t. Some (vlabel t)) ks)" using len by simp
    fix i assume "i < length (map (\<lambda>c. map_option text0 (h c)) (children it))"
    then have i: "i < length ks" "i < length (children it)" using len by simp_all
    from it(2) i have va: "vaddr (ks ! i) = Some (children it ! i)" by (metis nth_map)
    from it(3) i(1) have "reprv dp h r (Some a) (ks ! i)" by (simp add: list_all_length)
    from reprv_allocated [OF this va] i
    show "map (\<lambda>c. map_option text0 (h c)) (children it) ! i = map (\<lambda>t. Some (vlabel t)) ks ! i"
      by auto
  qed
  with it(1) show ?thesis by blast
qed

lemma vlabel_kids_erase: "map (\<lambda>t. Some (vlabel t)) (vkids w) = map (\<lambda>t. Some (llabel t)) (lkids (erase w))"
  by (simp add: comp_def)

lemma entry_labels_virtual:
  "map (\<lambda>t. Some (llabel t)) (lkids (erase (VNode s l (map (virtual dp) (entries el))))) = entry_labels dp el"
  by (simp add: entry_labels_def comp_def case_prod_beta)

lemma materialized_texts:
  assumes "wf_tree st T" "subt T p = Some (VNode (Pending a ph) l vs)"
    and "wf_tree st' T'" "subt T' p' = Some w'" "vaddr w' = Some a"
    and "erase w' = erase (VNode (Pending a ph) l vs)" "itemElementMap st' a = None"
    and "registry st a = Some el"
  shows "children_texts st' a = Some (entry_labels (decimal_point st) el)"
proof -
  have u: "vaddr (VNode (Pending a ph) l vs) = Some a" by (simp add: vaddr_def)
  define dp where "dp = decimal_point st"
  from wt_node [OF assms(1,2) u, folded dp_def] assms(8)
  have vs: "vs = map (virtual dp) (entries el)"
    by (auto split: option.splits)
  from wt_node [OF assms(3,4,5)] obtain it' par where
    it': "heap st' a = Some it'" and r: "reprv (decimal_point st') (heap st') (registry st') par w'" by blast
  from vaddr_status [OF assms(5)] obtain l' ks where w': "w' = VNode (Real a) l' ks"
    using r it' assms(7) by (auto simp: registry_def split: option.splits)
  from real_children_texts [OF r [unfolded w']] it'
  have "map (\<lambda>c. map_option text0 (heap st' c)) (children it') = map (\<lambda>t. Some (vlabel t)) (vkids w')"
    by (simp add: w')
  also have "\<dots> = map (\<lambda>t. Some (llabel t)) (lkids (erase w'))" by (rule vlabel_kids_erase)
  also have "\<dots> = entry_labels dp el" unfolding assms(6) vs by (rule entry_labels_virtual)
  finally show ?thesis using it' by (simp add: children_texts_def dp_def)
qed

lemma expand_registered:
  assumes "wf_tree st T" "itemElementMap st a = Some (parser_doc st, el)"
  shows "\<exists>st1 T1 it ph. on_treeWidget_itemExpanded a st = Some st1 \<and> wf_tree st1 T1
     \<and> erase T1 = erase T \<and> addr_pres T T1 \<and> grows st st1 \<and> kept st st1
     \<and> heap st a = Some it \<and> children it = [ph] \<and> heap st1 ph = None
     \<and> itemElementMap st1 a = None
     \<and> children_texts st1 a = Some (entry_labels (decimal_point st) el)"
proof -
  define dp where "dp = decimal_point st"
  note wt = assms(1)
  have reg: "registry st a = Some el" using assms(2) by (simp add: registry_def)
  from registered_pending [OF wt reg] obtain p ph l vs where
    w: "subt T p = Some (VNode (Pending a ph) l vs)" by blast
  define w0 where "w0 = VNode (Pending a ph) l vs"
  have w0: "subt T p = Some w0" "vaddr w0 = Some a" using w by (simp_all add: w0_def vaddr_def)
  from expand_wt [OF assms(1) w assms(2), folded dp_def] obtain st1 where
    el: "vs = map (virtual dp) (entries el)"
    and ex: "on_treeWidget_itemExpanded a st = Some st1"
    and wf1: "wf_tree st1 (substt T p (VNode (Real a) l (materialized dp (next_ptr st) (entries el))))"
    and k1: "kept st st1" and g1: "grows st st1"
    by auto
  define u' where "u' = VNode (Real a) l (materialized dp (next_ptr st) (entries el))"
  define T1 where "T1 = substt T p u'"
  have wf1': "wf_tree st1 T1" using wf1 by (simp add: T1_def u'_def)
  have eu: "erase u' = erase w0" by (simp add: u'_def w0_def el erase_materialized)
  have e1: "erase T1 = erase T" unfolding T1_def by (rule erase_substt [OF w0(1) eu])
  have vu: "vaddr u' = vaddr w0" by (simp add: u'_def w0_def vaddr_def)
  have leaf: "\<forall>q x. q \<noteq> [] \<longrightarrow> subt w0 q = Some x \<longrightarrow> vaddr x = None"
    unfolding w0_def el using subt_pending_leaf by blast
  have ap: "addr_pres T T1"
    unfolding addr_pres_def T1_def using subt_substt_addr [OF w0(1) vu leaf] by blast
  have su: "subt T1 p = Some u'" unfolding T1_def by (rule subt_substt_same [OF w0(1)])
  have vu': "vaddr u' = Some a" by (simp add: u'_def vaddr_def)
  from wt_node [OF wf1' su vu'] have reg1: "itemElementMap st1 a = None"
    by (cases "itemElementMap st1 a") (auto simp: u'_def split: option.splits)
  from wt_node [OF assms(1) w0] obtain it pt where it: "heap st a = Some it" "children it = [ph]"
    "heap st ph = Some pt"
    by (auto simp: w0_def split: option.splits)
  have fpw: "fp w0 = [a, ph]" by (simp add: w0_def el)
  from subt_fp [OF w0(1)] fpw have "ph \<in> set (fp T)" by auto
  have ph1: "heap st1 ph = None"
  proof (rule ccontr)
    assume "heap st1 ph \<noteq> None"
    with wtD(5) [OF wf1', of ph] have "ph \<in> set (fp T1)" by simp
    moreover have "set (fp T1) = (set (fp T) - set (fp w0)) \<union> set (fp u')"
      unfolding T1_def using set_fp_substt [OF w0(1) wtD(4) [OF assms(1)], of u'] by auto
    moreover have "fp u' = a # [next_ptr st..<next_ptr st + span (entries el)]"
      by (simp add: u'_def fp_materialized)
    moreover from subt_distinct [OF wtD(4) [OF assms(1)] w0(1)] fpw have "a \<noteq> ph" by simp
    moreover from wtD(7) [OF assms(1), of ph] it(3) have "ph < next_ptr st" by simp
    ultimately show False using fpw by auto
  qed
  have texts: "children_texts st1 a = Some (entry_labels (decimal_point st) el)"
    by (rule materialized_texts [OF wt w wf1' su vu' _ reg1 reg])
      (simp add: eu w0_def)
  from ex wf1' e1 ap g1 k1 it(1,2) ph1 reg1 texts show ?thesis by blast
qed


lemma wf_registry_iff:
  assumes "wf_tree st T"
  shows "(itemElementMap st a \<noteq> None) = has_placeholder (heap st) a"
    "registry st a = Some el \<Longrightarrow> is_container el"
proof -
  note w = wtD [OF assms]
  show "(itemElementMap st a \<noteq> None) = has_placeholder (heap st) a"
  proof (cases "a \<in> set (fp T)")
    case True
    from reprv_registry [OF w(3) True] show ?thesis by simp
  next
    case False
    with w(5) [of a] have h: "heap st a = None" by simp
    with w(6) [of a] have "itemElementMap st a = None" by (cases "itemElementMap st a") auto
    with h show ?thesis by (simp add: has_placeholder_def)
  qed
  show "is_container el" if r: "registry st a = Some el"
  proof -
    from r have "itemElementMap st a \<noteq> None" by (auto simp: registry_def)
    from w(6) [OF this] w(5) [of a] have "a \<in> set (fp T)" by simp
    from reprv_registry [OF w(3) this] r show ?thesis by blast
  qed
qed


lemma wf_registry:
  assumes "wf_state st T"
  shows "(\<forall>a. (itemElementMap st a \<noteq> None) = has_placeholder (heap st) a)
    \<and> (\<forall>a el. registry st a = Some el \<longrightarrow>
          is_container el
          \<and> (\<exists>st1 it ph. on_treeWidget_itemExpanded a st = Some st1
                \<and> heap st a = Some it \<and> children it = [ph] \<and> heap st1 ph = None
                \<and> itemElementMap st1 a = None
                \<and> children_texts st1 a = Some (entry_labels (decimal_point st) el)))"
proof (intro conjI allI impI)
  fix a
  show "(itemElementMap st a \<noteq> None) = has_placeholder (heap st) a"
    by (rule wf_registry_iff(1) [OF wf_state_tree [OF assms]])
next
  fix a el assume r: "registry st a = Some el"
  from wf_state_tree [OF assms] r show "is_container el" by (rule wf_registry_iff(2))
  from expand_registered [OF wf_state_tree [OF assms]
      registry_fresh [OF wf_state_fresh [OF assms] r]]
  show "\<exists>st1 it ph. on_treeWidget_itemExpanded a st = Some st1
                \<and> heap st a = Some it \<and> children it = [ph] \<and> heap st1 ph = None
                \<and> itemElementMap st1 a = None
                \<and> children_texts st1 a = Some (entry_labels (decimal_point st) el)" by blast
qed

section \<open>The tree of every reachable state\<close>

text \<open>
  The slots keep the display tree represented, whatever the handles point to: the lemmas of
  this section follow a run of the reader that returns, one event at a time.
\<close>

lemma QString_contains_Nil: "str \<noteq> [] \<Longrightarrow> \<not> QString_contains [] str cs"
  by (simp add: QString_contains_def)

lemma wt_initial: "wf_tree (initial point) (VNode Top [] [])"
  by (simp add: wf_tree_def initial_def)

lemma wt_top_level_nodes:
  assumes "wf_tree st T" "a \<in> set (topLevelItems st)"
  shows "a \<in> set (nodes T)"
proof -
  from assms(2) obtain i where i: "i < length (topLevelItems st)" "topLevelItems st ! i = a"
    by (auto simp: in_set_conv_nth)
  from wtD(2) [OF assms(1)] have eq: "map Some (topLevelItems st) = map vaddr (vkids T)" .
  then have len: "length (topLevelItems st) = length (vkids T)" by (metis length_map)
  from eq i len have va: "vaddr (vkids T ! i) = Some a" by (metis nth_map)
  obtain s l ts where T: "T = VNode s l ts" by (cases T)
  with wtD(1) [OF assms(1)] have s: "s = Top" by simp
  from i(1) len T have k: "ts ! i \<in> set ts" by simp
  from va T have "a \<in> set (nodes (ts ! i))" by (simp add: vaddr_in_nodes)
  with k show ?thesis unfolding T s by auto
qed

lemma real_children_nodes:
  assumes "wf_tree st T" "a \<in> set (nodes T)" "itemElementMap st a = None" "heap st a = Some it"
  shows "set (children it) \<subseteq> set (nodes T)"
proof
  fix c assume c: "c \<in> set (children it)"
  from nodes_subt [OF assms(2)] obtain p u where u: "subt T p = Some u" "vaddr u = Some a" by blast
  from wt_node [OF assms(1) u] obtain par where
    r: "reprv (decimal_point st) (heap st) (registry st) par u" by blast
  from vaddr_status [OF u(2)] obtain l ks where ur: "u = VNode (Real a) l ks"
    using r assms(3,4) by (auto simp: registry_def split: option.splits)
  from r assms(4) have m: "map Some (children it) = map vaddr ks" by (simp add: ur)
  from c have "Some c \<in> set (map Some (children it))" by simp
  then have "Some c \<in> set (map vaddr ks)" by (simp only: m)
  then obtain k where k: "k \<in> set ks" "vaddr k = Some c" by auto
  from vaddr_in_nodes [OF k(2)] k(1) have "c \<in> set (nodes u)" by (auto simp: ur)
  with subt_nodes [OF u(1)] show "c \<in> set (nodes T)" by blast
qed

lemma delete_takeChild0_parser_doc:
  "delete_takeChild0 item st = Some st' \<Longrightarrow> parser_doc st' = parser_doc st"
  by (auto simp: delete_takeChild0_def Let_def split: option.splits list.splits)

lemma expand_handle:
  assumes "on_treeWidget_itemExpanded a st = Some st'" "itemElementMap st a = Some (d, el)"
  shows "d = parser_doc st"
proof -
  from assms obtain st1 el' where
    a: "st1 = st \<or> delete_takeChild0 a st = Some st1"
    and b: "deref st1 (d, el) = Some el'"
    by (auto simp: on_treeWidget_itemExpanded_def split: option.splits list.splits if_splits)
  from a have "parser_doc st1 = parser_doc st" by (auto dest: delete_takeChild0_parser_doc)
  with b show ?thesis by (simp add: deref_def split: if_splits)
qed

lemma expand_any_wt:
  assumes "wf_tree st T" "on_treeWidget_itemExpanded a st = Some st'"
  shows "\<exists>T'. wf_tree st' T' \<and> set (nodes T) \<subseteq> set (nodes T')
     \<and> (a \<in> set (nodes T) \<longrightarrow>
          (\<forall>it. heap st' a = Some it \<longrightarrow> set (children it) \<subseteq> set (nodes T')))"
proof (cases "itemElementMap st a")
  case None
  with assms(2) have e: "st' = st" by (simp add: on_treeWidget_itemExpanded_unregistered)
  from real_children_nodes [OF assms(1) _ None] assms(1) show ?thesis unfolding e by blast
next
  case (Some h)
  obtain d el where h: "h = (d, el)" by (cases h)
  from expand_handle [OF assms(2) Some [unfolded h]] have d: "d = parser_doc st" .
  from Some have hnd: "itemElementMap st a = Some (parser_doc st, el)" by (simp add: h d)
  then have reg: "registry st a = Some el" by (simp add: registry_def)
  from registered_pending [OF assms(1) reg] obtain p ph l vs where
    w: "subt T p = Some (VNode (Pending a ph) l vs)" by blast
  define u' where
    "u' = VNode (Real a) l (materialized (decimal_point st) (next_ptr st) (entries el))"
  from expand_wt [OF assms(1) w hnd] assms(2)
  have vs: "vs = map (virtual (decimal_point st)) (entries el)"
    and wf1: "wf_tree st' (substt T p u')"
    unfolding u'_def by auto
  have vu: "vaddr u' = vaddr (VNode (Pending a ph) l vs)" by (simp add: u'_def vaddr_def)
  have leaf: "\<forall>q x. q \<noteq> [] \<longrightarrow> subt (VNode (Pending a ph) l vs) q = Some x \<longrightarrow> vaddr x = None"
    unfolding vs using subt_pending_leaf by blast
  have sub: "set (nodes T) \<subseteq> set (nodes (substt T p u'))"
    using nodes_substt [OF w vu leaf] by blast
  from Some have "itemElementMap st a \<noteq> None" by simp
  from expanded_not_registered [OF assms(2) this] have reg1: "itemElementMap st' a = None" .
  have "set (children it) \<subseteq> set (nodes (substt T p u'))"
    if "a \<in> set (nodes T)" "heap st' a = Some it" for it
    using real_children_nodes [OF wf1 _ reg1 that(2)] sub that(1) by blast
  with wf1 sub show ?thesis by blast
qed

lemma searchTree_loop_wt:
  assumes "searchTree_loop searchText cs queue started st = Some r"
  shows "\<forall>T. wf_tree st T \<and> set queue \<subseteq> set (nodes T) \<longrightarrow>
           (\<exists>T'. wf_tree (snd r) T' \<and> set (nodes T) \<subseteq> set (nodes T'))"
proof (rule searchTree_loop.raw_induct
    [where P = "\<lambda>searchText cs queue started st r.
       \<forall>T. wf_tree st T \<and> set queue \<subseteq> set (nodes T) \<longrightarrow>
           (\<exists>T'. wf_tree (snd r) T' \<and> set (nodes T) \<subseteq> set (nodes T'))", OF _ assms],
    goal_cases)
  case (1 f searchText cs queue started st r)
  show ?case
  proof (intro allI impI, elim conjE)
    fix T assume wf: "wf_tree st T" and q: "set queue \<subseteq> set (nodes T)"
    show "\<exists>T'. wf_tree (snd r) T' \<and> set (nodes T) \<subseteq> set (nodes T')"
    proof (cases queue)
      case Nil
      with 1(2) have "r = (False, st)" by simp
      with wf show ?thesis by auto
    next
      case (Cons current rest)
      with q have cur: "current \<in> set (nodes T)" and rest: "set rest \<subseteq> set (nodes T)" by simp_all
      from 1(2) Cons obtain it where it: "heap st current = Some it" by (auto split: option.splits)
      show ?thesis
      proof (cases "started \<and> QString_contains (text0 it) searchText cs")
        case True
        with 1(2) Cons it
        have body: "(case select_match current st of None \<Rightarrow> None
                     | Some st1 \<Rightarrow> Some (True, st1)) = Some r"
          by simp
        then obtain st1 where s: "select_match current st = Some st1"
          by (cases "select_match current st") simp_all
        from body s have r: "r = (True, st1)" by simp
        from nodes_subt [OF cur] obtain p u where u: "subt T p = Some u" "vaddr u = Some current"
          by blast
        from select_match_wt [OF wf u] s obtain st2 where
          fl: "flagged st st2" and e: "st1 = st2\<lparr>scrolledTo := Some current, lastMatch := Some current\<rparr>"
          by auto
        from wt_matched [OF wt_flagged [OF wf fl] cur] have "wf_tree st1 T" unfolding e .
        then show ?thesis unfolding r by auto
      next
        case False
        from 1(2) Cons it False
        have body: "(case on_treeWidget_itemExpanded current st of
                       None \<Rightarrow> None
                     | Some st1 \<Rightarrow>
                         (case heap st1 current of
                            None \<Rightarrow> None
                          | Some it1 \<Rightarrow>
                              f searchText cs (rest @ children it1)
                                (started \<or> lastMatch st = Some current) st1)) = Some r"
          by simp
        then obtain st1 where ex: "on_treeWidget_itemExpanded current st = Some st1"
          by (cases "on_treeWidget_itemExpanded current st") simp_all
        from body ex obtain it1 where it1: "heap st1 current = Some it1"
          by (cases "heap st1 current") simp_all
        from body ex it1 have rec: "f searchText cs (rest @ children it1)
                      (started \<or> lastMatch st = Some current) st1 = Some r"
          by simp
        from expand_any_wt [OF wf ex] cur it1 obtain T1 where
          wf1: "wf_tree st1 T1" and sub: "set (nodes T) \<subseteq> set (nodes T1)"
          and ch: "set (children it1) \<subseteq> set (nodes T1)" by blast
        from rest sub ch have q1: "set (rest @ children it1) \<subseteq> set (nodes T1)" by auto
        from 1(1) [OF rec] wf1 q1 obtain T' where
          "wf_tree (snd r) T'" "set (nodes T1) \<subseteq> set (nodes T')" by blast
        with sub show ?thesis by blast
      qed
    qed
  qed
qed

lemma searchTree_wt:
  assumes "wf_tree st T" "searchTree a searchText startFromCurrent searchArrays st = Some (found, st')"
    "a \<in> set (nodes T) \<or> searchText \<noteq> []"
  shows "\<exists>T'. wf_tree st' T' \<and> set (nodes T) \<subseteq> set (nodes T')"
proof (cases "a \<in> set (nodes T)")
  case True
  from searchTree_loop_wt [OF assms(2) [unfolded searchTree_def]] assms(1) True
  show ?thesis by auto
next
  case False
  with assms(3) have ne: "searchText \<noteq> []" by simp
  from assms(2) obtain pt where pt: "heap st a = Some pt"
    by (cases "heap st a") (simp_all add: searchTree_def searchTree_loop_Cons)
  then have "heap st a \<noteq> None" by simp
  with wtD(5) [OF assms(1), of a] have "a \<in> set (fp T)" by simp
  from reprv_placeholder [OF wtD(3) [OF assms(1)] this False] pt
  have p: "text0 pt = []" "children pt = []" "itemElementMap st a = None" by auto
  have nm: "\<not> (\<not> startFromCurrent \<and> QString_contains (text0 pt) searchText (radioCapital st))"
    using QString_contains_Nil [OF ne] p(1) by simp
  from searchTree_loop_step [OF pt nm on_treeWidget_itemExpanded_unregistered [OF p(3)] pt]
  have "searchTree a searchText startFromCurrent searchArrays st = Some (False, st)"
    by (simp add: searchTree_def p(2) searchTree_loop_Nil)
  with assms(2) have "st' = st" by simp
  with assms(1) show ?thesis by auto
qed

lemma search_top_level_wt:
  assumes "wf_tree st T" "set items \<subseteq> set (nodes T)"
    "search_top_level searchText items st = Some st'"
  shows "\<exists>T'. wf_tree st' T' \<and> set (nodes T) \<subseteq> set (nodes T')"
  using assms
proof (induction items arbitrary: st T)
  case Nil
  then have "st' = qInfo ''Search text not found'' st" by simp
  with wt_qInfo [OF Nil(1)] show ?case by auto
next
  case (Cons a items)
  from Cons.prems(3) obtain found st1 where
    run: "searchTree a searchText False True st = Some (found, st1)"
    by (cases "searchTree a searchText False True st") auto
  from Cons.prems(2) have a: "a \<in> set (nodes T)" by simp
  from searchTree_wt [OF Cons.prems(1) run] a obtain T1 where
    wf1: "wf_tree st1 T1" and sub: "set (nodes T) \<subseteq> set (nodes T1)" by blast
  show ?case
  proof (cases found)
    case True
    with run Cons.prems(3) have st': "st' = st1\<lparr>lastSearchText := searchText\<rparr>" by simp
    from searchTree_result(5) [OF run True] have "lastMatch st1 \<noteq> None"
      by (rule match_recorded_lastMatch)
    from wt_lastSearchText [OF wf1 this] sub show ?thesis unfolding st' by blast
  next
    case False
    with run Cons.prems(3) have rest: "search_top_level searchText items st1 = Some st'" by simp
    from Cons.prems(2) sub have "set items \<subseteq> set (nodes T1)" by auto
    from Cons.IH [OF wf1 this rest] sub show ?thesis by blast
  qed
qed

lemma textChanged_wt:
  assumes "wf_tree st T" "on_textEdit_textChanged st = Some st'"
  shows "\<exists>T'. wf_tree st' T' \<and> set (nodes T) \<subseteq> set (nodes T')"
proof (cases "textEdit st = []")
  case True
  with assms(2) have "st' = st" by (simp add: on_textEdit_textChanged_def)
  with assms(1) show ?thesis by auto
next
  case False
  show ?thesis
  proof (cases "currentItem st")
    case None
    from assms(2) False None
    have run: "search_top_level (textEdit st) (topLevelItems st) st = Some st'"
      by (simp add: on_textEdit_textChanged_def)
    have "set (topLevelItems st) \<subseteq> set (nodes T)"
      using wt_top_level_nodes [OF assms(1)] by blast
    from search_top_level_wt [OF assms(1) this run] show ?thesis .
  next
    case (Some c)
    with assms(2) False obtain found st1 where
      run: "searchTree c (textEdit st) False True st = Some (found, st1)"
      by (cases "searchTree c (textEdit st) False True st")
        (auto simp: on_textEdit_textChanged_def)
    from searchTree_wt [OF assms(1) run] False obtain T1 where
      wf1: "wf_tree st1 T1" and sub: "set (nodes T) \<subseteq> set (nodes T1)" by blast
    show ?thesis
    proof (cases found)
      case True
      have st': "st' = st1\<lparr>lastSearchText := textEdit st\<rparr>"
        using assms(2) False Some run True by (simp add: on_textEdit_textChanged_def)
      from searchTree_result(5) [OF run True] have "lastMatch st1 \<noteq> None"
        by (rule match_recorded_lastMatch)
      from wt_lastSearchText [OF wf1 this] sub show ?thesis unfolding st' by blast
    next
      case F: False
      have "st' = qInfo ''Search text not found'' st1"
        using assms(2) False Some run F by (simp add: on_textEdit_textChanged_def)
      with wt_qInfo [OF wf1] sub show ?thesis by auto
    qed
  qed
qed

lemma next_top_level_wt:
  assumes "wf_tree st T" "set items \<subseteq> set (nodes T)"
    "next_top_level searchText items pastCurrentMatch st = Some st'"
  shows "\<exists>T'. wf_tree st' T' \<and> set (nodes T) \<subseteq> set (nodes T')"
  using assms
proof (induction items arbitrary: st T pastCurrentMatch)
  case Nil
  then have "st' = qInfo ''No further matches found'' st" by simp
  with wt_qInfo [OF Nil(1)] show ?case by auto
next
  case (Cons a items)
  from Cons.prems(3) obtain found st1 where
    run: "searchTree a searchText (\<not> pastCurrentMatch) False st = Some (found, st1)"
    by (cases "searchTree a searchText (\<not> pastCurrentMatch) False st") auto
  from Cons.prems(2) have a: "a \<in> set (nodes T)" by simp
  from searchTree_wt [OF Cons.prems(1) run] a obtain T1 where
    wf1: "wf_tree st1 T1" and sub: "set (nodes T) \<subseteq> set (nodes T1)" by blast
  from Cons.prems(2) sub have items1: "set items \<subseteq> set (nodes T1)" by auto
  show ?case
  proof (cases "found \<and> pastCurrentMatch")
    case True
    with run Cons.prems(3) have "st' = st1" by auto
    with wf1 sub show ?thesis by auto
  next
    case False
    then obtain pcm where "next_top_level searchText items pcm st1 = Some st'"
      using run Cons.prems(3) by (cases found; cases pastCurrentMatch) (auto split: if_splits)
    from Cons.IH [OF wf1 items1 this] sub show ?thesis by blast
  qed
qed


lemma load_parsed_wt:
  assumes "wf_tree st T"
    and "(let (root, st1) = new_QTreeWidgetItem [] st in
          case add_children_to_item root doc st1 of
            None \<Rightarrow> None
          | Some st2 \<Rightarrow> Some (st2\<lparr>topLevelItems := root # topLevelItems st2\<rparr>)) = Some st'"
  shows "\<exists>T'. wf_tree st' T' \<and> set (nodes T) \<subseteq> set (nodes T')"
proof -
  note w = wtD [OF assms(1)]
  define dp where "dp = decimal_point st"
  define n where "n = next_ptr st"
  define es where "es = entries doc"
  define blank where "blank = \<lparr>text0 = [], foreground = None, children = [], parent = None,
              selected = False, expanded = False\<rparr>"
  define st1 where "st1 = st\<lparr>heap := (heap st)(n \<mapsto> blank), next_ptr := Suc n\<rparr>"
  have new: "new_QTreeWidgetItem [] st = (n, st1)"
    by (simp add: new_QTreeWidgetItem_def st1_def n_def blank_def)
  have h1: "heap st1 n = Some blank" "n < next_ptr st1" by (simp_all add: st1_def)
  have above: "\<forall>b. next_ptr st1 \<le> b \<longrightarrow> itemElementMap st1 b = None"
    using wt_above(2) [OF assms(1)] by (simp add: st1_def n_def)
  from add_members_grown [OF h1 above, of es] obtain st2 where
    run: "add_members n es st1 = Some st2" and g: "grown n es st1 st2" by blast
  from g have e1: "st2 = st1\<lparr>heap := heap st2, next_ptr := Suc n + span es,
              itemElementMap := itemElementMap st2\<rparr>"
    and e2: "heap st2 n = Some (blank\<lparr>children := child_addrs (Suc n) es\<rparr>)"
    and e4: "\<And>b. b \<noteq> n \<Longrightarrow> b < Suc n \<or> Suc n + span es \<le> b \<Longrightarrow> heap st2 b = heap st1 b"
    and e6: "\<And>b. b < Suc n \<or> Suc n + span es \<le> b \<Longrightarrow> itemElementMap st2 b = itemElementMap st1 b"
    and e7: "list_all (reprv dp (heap st2) (registry st2) (Some n)) (materialized dp (Suc n) es)"
    unfolding grown_def using h1(1) by (auto simp: st1_def blank_def dp_def)
  have st': "st' = st2\<lparr>topLevelItems := n # topLevelItems st2\<rparr>"
    using assms(2) by (simp add: new add_children_to_item_entries run [unfolded es_def])
  obtain l ts where T: "T = VNode Top l ts" using w(1) by (cases T) auto
  define kids where "kids = materialized dp (Suc n) es"
  define u where "u = VNode (Real n) [] kids"
  define T' where "T' = VNode Top l (u # ts)"
  have fpk: "concat (map fp kids) = [Suc n..<Suc n + span es]" by (simp add: kids_def fp_materialized)
  have fpu: "fp u = n # [Suc n..<Suc n + span es]" by (simp add: u_def fpk)
  have fpT': "fp T' = fp u @ fp T" by (simp add: T'_def T)
  have fields: "topLevelItems st' = n # topLevelItems st" "lastMatch st' = lastMatch st"
    "lastSearchText st' = lastSearchText st" "next_ptr st' = Suc n + span es"
    "heap st' = heap st2" "itemElementMap st' = itemElementMap st2" "decimal_point st' = dp"
    unfolding st' by (subst e1, simp add: st1_def dp_def)+
  have reg': "registry st' = registry st2" by (rule registry_cong) (rule fields)
  have old_none: "heap st b = None" "itemElementMap st b = None" if "n \<le> b" for b
    using that wt_above [OF assms(1), of b] by (simp_all add: n_def)
  have old_lt: "b < n" if "b \<in> set (fp T)" for b
    using that w(5) [of b] w(7) [of b] by (simp add: n_def)
  have old_heap: "heap st2 b = heap st b" "itemElementMap st2 b = itemElementMap st b" if "b < n" for b
    using that e4 [of b] e6 [of b] by (simp_all add: st1_def)
  have new_alloc: "heap st2 b \<noteq> None" if "Suc n \<le> b" "b < Suc n + span es" for b
  proof -
    from that have "b \<in> set [Suc n..<Suc n + span es]" by auto
    then have "b \<in> set (concat (map fp kids))" by (simp only: fpk)
    then obtain t where t: "t \<in> set kids" "b \<in> set (fp t)" by auto
    with e7 have "reprv dp (heap st2) (registry st2) (Some n) t"
      by (simp add: kids_def list_all_iff)
    from reprv_registry [OF this t(2)] show ?thesis by simp
  qed
  have rn: "itemElementMap st2 n = None" using e6 [of n] old_none(2) [of n] by (simp add: st1_def)
  have ru: "reprv dp (heap st2) (registry st2) None u"
  proof -
    have "list_all (\<lambda>t. vlabel t \<noteq> [] \<and> reprv dp (heap st2) (registry st2) (Some n) t) kids"
      using e7 vlabel_materialized [of dp "Suc n" es] by (simp add: kids_def list_all_iff)
    then show ?thesis using e2 rn by (simp add: u_def kids_def vaddr_materialized blank_def)
  qed
  have "wf_tree st' T'"
  proof (rule wtI)
    show "vstatus T' = Top" by (simp add: T'_def)
    show "map Some (topLevelItems st') = map vaddr (vkids T')"
      using w(2) by (simp add: fields T'_def T u_def vaddr_def)
    have "reprv dp (heap st2) (registry st2) None t" if t: "t \<in> set ts" for t
    proof -
      from w(3) t have "reprv dp (heap st) (registry st) None t"
        by (simp add: T list_all_iff dp_def)
      moreover have "reprv dp (heap st2) (registry st2) None t = reprv dp (heap st) (registry st) None t"
      proof (rule reprv_frame, rule ballI)
        fix b assume "b \<in> set (fp t)"
        with fp_kid_subset [OF t, of Top l] have "b \<in> set (fp T)" by (auto simp: T)
        from old_heap [OF old_lt [OF this]]
        show "map_option shape (heap st2 b) = map_option shape (heap st b)
            \<and> registry st2 b = registry st b" by (simp add: registry_def)
      qed
      ultimately show ?thesis by simp
    qed
    moreover from w(3) have "\<forall>t \<in> set ts. vaddr t \<noteq> None" by (simp add: T list_all_iff)
    ultimately show "reprv (decimal_point st') (heap st') (registry st') None T'"
      using ru by (simp add: fields reg' T'_def list_all_iff u_def vaddr_def)
    show "distinct (fp T')"
    proof -
      have "n \<notin> set (fp T)" using old_lt [of n] by auto
      moreover have "set [Suc n..<Suc n + span es] \<inter> set (fp T) = {}"
        using old_lt by fastforce
      ultimately show ?thesis using w(4) by (simp add: fpT' fpu)
    qed
    show "heap st' b \<noteq> None \<longleftrightarrow> b \<in> set (fp T')" for b
    proof (cases "b < n")
      case True
      with old_heap [OF True] w(5) [of b] show ?thesis by (auto simp: fields fpT' fpu)
    next
      case False
      then have nin: "b \<notin> set (fp T)" using old_lt [of b] by auto
      show ?thesis
      proof (cases "b < Suc n + span es")
        case True
        with False e2 new_alloc [of b] nin show ?thesis
          by (cases "b = n") (auto simp: fields fpT' fpu)
      next
        case ge: False
        with False e4 [of b] old_none(1) [of b] nin show ?thesis
          by (auto simp: fields fpT' fpu st1_def)
      qed
    qed
    show "heap st' b \<noteq> None" if r: "itemElementMap st' b \<noteq> None" for b
    proof (cases "b < n")
      case True
      with r old_heap [OF True] w(6) [of b] show ?thesis by (simp add: fields)
    next
      case False
      show ?thesis
      proof (cases "b < Suc n + span es")
        case True
        with False e2 new_alloc [of b] show ?thesis by (cases "b = n") (auto simp: fields)
      next
        case ge: False
        with False e6 [of b] old_none(2) [of b] r show ?thesis by (simp add: fields st1_def)
      qed
    qed
    show "b < next_ptr st'" if "heap st' b \<noteq> None" for b
    proof (rule ccontr)
      assume "\<not> b < next_ptr st'"
      then have ge: "Suc n + span es \<le> b" by (simp add: fields)
      with e4 [of b] old_none(1) [of b] that show False by (simp add: fields st1_def)
    qed
    show "lastSearchText st' = []" if "lastMatch st' = None"
      using that w(8) by (simp add: fields)
    show "m \<in> set (nodes T')" if "lastMatch st' = Some m" for m
      using that w(9) [of m] by (simp add: fields T'_def T)
  qed
  moreover have "set (nodes T) \<subseteq> set (nodes T')" by (auto simp: T T'_def)
  ultimately show ?thesis by blast
qed

lemma load_wt:
  assumes "wf_tree st T" "on_loadBtn_clicked r st = Some st'"
  shows "\<exists>T'. wf_tree st' T' \<and> set (nodes T) \<subseteq> set (nodes T')"
proof (cases r)
  case Cancelled
  with assms show ?thesis by (auto simp: on_loadBtn_clicked_def)
next
  case (ReadError e)
  with assms(2) have "st' = qInfo (''Error:  '' @ e) st" by (simp add: on_loadBtn_clicked_def)
  with wt_qInfo [OF assms(1)] show ?thesis by auto
next
  case (ParseError e)
  have w0: "wf_tree (st\<lparr>parser_doc := Suc (parser_doc st)\<rparr>) T"
    by (rule wt_fields [OF assms(1)]) (use wtD(8,9) [OF assms(1)] in \<open>auto simp: registry_def\<close>)
  from ParseError assms(2)
  have "st' = qInfo (''Error:  '' @ e) (st\<lparr>parser_doc := Suc (parser_doc st)\<rparr>)"
    by (simp add: on_loadBtn_clicked_def)
  with wt_qInfo [OF w0] show ?thesis by auto
next
  case (Parsed doc)
  have w0: "wf_tree (st\<lparr>parser_doc := Suc (parser_doc st)\<rparr>) T"
    by (rule wt_fields [OF assms(1)]) (use wtD(8,9) [OF assms(1)] in \<open>auto simp: registry_def\<close>)
  from Parsed assms(2) show ?thesis
    by (intro load_parsed_wt [OF w0, of doc]) (simp add: on_loadBtn_clicked_def)
qed

lemma step_wt:
  assumes "wf_tree st T" "step e st = Some st'"
  shows "\<exists>T'. wf_tree st' T'"
proof (cases e)
  case (Load r)
  with load_wt [OF assms(1), of r st'] assms(2) show ?thesis by auto
next
  case (Expand item)
  with assms(2) obtain it where it: "heap st item = Some it" by (auto split: option.splits)
  define st0 where "st0 = st\<lparr>heap := (heap st)(item \<mapsto> it\<lparr>expanded := True\<rparr>)\<rparr>"
  have "flagged st st0"
    unfolding st0_def by (rule flagged_update [OF flagged_refl it]) (simp add: shape_def)
  then have wf0: "wf_tree st0 T" using wt_flagged [OF assms(1)] by simp
  from assms(2) Expand it have run: "on_treeWidget_itemExpanded item st0 = Some st'"
    by (simp add: st0_def)
  from expand_any_wt [OF wf0 run] show ?thesis by blast
next
  case (SetCurrent c)
  with assms(2) have e: "st' = st\<lparr>currentItem := c\<rparr>" by (auto split: option.splits)
  have "wf_tree (st\<lparr>currentItem := c\<rparr>) T"
    by (rule wt_fields [OF assms(1)]) (use wtD(8,9) [OF assms(1)] in auto)
  then show ?thesis unfolding e by blast
next
  case (EditText s)
  have wf0: "wf_tree (st\<lparr>textEdit := s\<rparr>) T"
    by (rule wt_fields [OF assms(1)]) (use wtD(8,9) [OF assms(1)] in auto)
  from assms(2) EditText have "on_textEdit_textChanged (st\<lparr>textEdit := s\<rparr>) = Some st'" by simp
  from textChanged_wt [OF wf0 this] show ?thesis by blast
next
  case (Toggle checked)
  have wf0: "wf_tree (st\<lparr>radioCapital := checked\<rparr>) T"
    by (rule wt_fields [OF assms(1)]) (use wtD(8,9) [OF assms(1)] in auto)
  show ?thesis
  proof (cases "textEdit st = []")
    case True
    with assms(2) Toggle have "st' = st\<lparr>radioCapital := checked\<rparr>"
      by (simp add: on_radioCapital_toggled_def)
    with wf0 show ?thesis by blast
  next
    case False
    with assms(2) Toggle have "on_textEdit_textChanged (st\<lparr>radioCapital := checked\<rparr>) = Some st'"
      by (simp add: on_radioCapital_toggled_def)
    from textChanged_wt [OF wf0 this] show ?thesis by blast
  qed
next
  case SearchNext
  show ?thesis
  proof (cases "textEdit st = [] \<or> textEdit st \<noteq> lastSearchText st")
    case True
    with assms SearchNext have "st' = st" by (auto simp: on_searchNextBtn_clicked_def)
    with assms(1) show ?thesis by blast
  next
    case False
    have items: "set (topLevelItems st) \<subseteq> set (nodes T)"
      using wt_top_level_nodes [OF assms(1)] by blast
    from assms(2) SearchNext False
    have "next_top_level (textEdit st) (topLevelItems st) (lastMatch st = None) st = Some st'"
      by (auto simp: on_searchNextBtn_clicked_def)
    from next_top_level_wt [OF assms(1) items this] show ?thesis by blast
  qed
qed

lemma run_wt:
  assumes "wf_tree st T" "run es st = Some st'"
  shows "\<exists>T'. wf_tree st' T'"
  using assms
proof (induction es arbitrary: st T)
  case Nil
  then show ?case by auto
next
  case (Cons e es)
  from Cons.prems(2) obtain st1 where s: "step e st = Some st1" "run es st1 = Some st'"
    by (auto split: option.splits)
  from step_wt [OF Cons.prems(1) s(1)] obtain T1 where "wf_tree st1 T1" ..
  from Cons.IH [OF this s(2)] show ?case .
qed

lemma reachable_wt: "run es (initial point) = Some st \<Longrightarrow> \<exists>T. wf_tree st T"
  by (rule run_wt [OF wt_initial])

section \<open>Registry entries of an earlier document\<close>

lemma reachable_registry:
  assumes "run es (initial point) = Some st"
  shows "(itemElementMap st a \<noteq> None) = has_placeholder (heap st) a"
    and "registry st a = Some el \<Longrightarrow> is_container el"
    and "itemElementMap st a = Some (parser_doc st, el) \<Longrightarrow>
          \<exists>st1 it ph. on_treeWidget_itemExpanded a st = Some st1
             \<and> heap st a = Some it \<and> children it = [ph] \<and> heap st1 ph = None
             \<and> itemElementMap st1 a = None
             \<and> children_texts st1 a = Some (entry_labels (decimal_point st) el)"
    and "itemElementMap st a = Some (d, el) \<Longrightarrow> d \<noteq> parser_doc st \<Longrightarrow>
          on_treeWidget_itemExpanded a st = None"
proof -
  from reachable_wt [OF assms] obtain T where wt: "wf_tree st T" ..
  show "(itemElementMap st a \<noteq> None) = has_placeholder (heap st) a"
    by (rule wf_registry_iff(1) [OF wt])
  show "is_container el" if "registry st a = Some el"
    using wt that by (rule wf_registry_iff(2))
  show "\<exists>st1 it ph. on_treeWidget_itemExpanded a st = Some st1
             \<and> heap st a = Some it \<and> children it = [ph] \<and> heap st1 ph = None
             \<and> itemElementMap st1 a = None
             \<and> children_texts st1 a = Some (entry_labels (decimal_point st) el)"
    if "itemElementMap st a = Some (parser_doc st, el)"
    using expand_registered [OF wt that] by blast
  show "on_treeWidget_itemExpanded a st = None"
    if h: "itemElementMap st a = Some (d, el)" and d: "d \<noteq> parser_doc st"
  proof (cases "on_treeWidget_itemExpanded a st")
    case (Some st')
    from expand_handle [OF Some h] d show ?thesis by simp
  qed simp
qed

lemma example_stale_contains:
  "\<not> QString_contains [] ''z'' False"
  "\<not> QString_contains ''b: 2'' ''z'' False"
  "\<not> QString_contains ''k: OBJECT'' ''z'' False"
  by code_simp+

text \<open>
  Claim C5. In every state the reader reaches, an item is a key of \<open>itemElementMap\<close> exactly
  when it has one child and that child has the empty text, and the stored element is an
  array or an object. The expansion of a key whose handle points into the document the
  parser holds removes the placeholder, creates the children and erases the key; the
  expansion of a key whose handle points into an earlier document has no defined result
  (\<open>reachable_registry\<close>). Such keys exist: every load parses into the one \<open>parser\<close> of the
  window and leaves the entries of the earlier documents in \<open>itemElementMap\<close>. After loading
  \<open>{"k": {"x": true}}\<close> and then \<open>{"b": 2}\<close>, the item \<open>k: OBJECT\<close> is still a key with its
  placeholder, its handle belongs to the first document while the parser holds the second,
  and neither the expansion of the item nor a search that reaches it has a defined result.
\<close>

theorem on_loadBtn_clicked_stale_entry:
  "\<exists>st. run [Load (Parsed example_doc), Load (Parsed (OBJECT [(''b'', INT64 2)]))]
          (initial ''.'') = Some st
     \<and> topLevelItems st = [3, 0]
     \<and> map_option text0 (heap st 1) = Some ''k: OBJECT''
     \<and> has_placeholder (heap st) 1
     \<and> itemElementMap st 1 = Some (1, OBJECT [(''x'', BOOL True)])
     \<and> parser_doc st = 2
     \<and> deref st (1, OBJECT [(''x'', BOOL True)]) = None
     \<and> on_treeWidget_itemExpanded 1 st = None
     \<and> step (Expand 1) st = None
     \<and> step (EditText ''z'') st = None"
  by (simp add: on_loadBtn_clicked_def initial_def example_doc_def eval_items eval_to_string
      has_placeholder_def deref_def on_treeWidget_itemExpanded_def delete_takeChild0_def
      destroy.simps on_textEdit_textChanged_def searchTree_def searchTree_loop_Cons
      searchTree_loop_Nil example_stale_contains)

section \<open>The exported list\<close>

lemma copy_items_Nil: "copy_items h [] = Some []"
  by (subst copy_items.simps) simp

lemma copy_items_Cons:
  "copy_items h (item # rest) =
     (case h item of
        None \<Rightarrow> None
      | Some it \<Rightarrow>
          Option.bind (copy_items h (children it)) (\<lambda>childPairs.
          Option.bind (copy_items h rest) (\<lambda>pairs.
          Some ((text0 it # childPairs) @ pairs))))"
  by (subst copy_items.simps) simp

lemma copy_items_list:
  assumes "\<And>t a rest. t \<in> set ts \<Longrightarrow> is_dtree h a t \<Longrightarrow>
      copy_items h (a # rest) = Option.bind (copy_items h rest) (\<lambda>rs. Some (preorder t @ rs))"
    and "list_all2 (is_dtree h) items ts"
  shows "copy_items h items = Some (concat (map preorder ts))"
  using assms
proof (induction ts arbitrary: items)
  case Nil
  then show ?case by (simp add: copy_items_Nil)
next
  case (Cons t ts)
  from Cons.prems(2) obtain a rest where items: "items = a # rest" "is_dtree h a t"
    "list_all2 (is_dtree h) rest ts"
    by (auto simp: list_all2_Cons2)
  have "copy_items h rest = Some (concat (map preorder ts))"
    by (rule Cons.IH [OF _ items(3)]) (rule Cons.prems(1), simp_all)
  moreover have "copy_items h (a # rest)
      = Option.bind (copy_items h rest) (\<lambda>rs. Some (preorder t @ rs))"
    by (rule Cons.prems(1) [OF _ items(2)]) simp
  ultimately show ?case by (simp add: items(1))
qed

lemma copy_items_dtree:
  "is_dtree h a t \<Longrightarrow>
     copy_items h (a # rest) = Option.bind (copy_items h rest) (\<lambda>rs. Some (preorder t @ rs))"
proof (induction t arbitrary: a rest)
  case (DNode l ks)
  from DNode.prems obtain it where it: "h a = Some it" "text0 it = l"
    "list_all2 (is_dtree h) (children it) ks"
    by (auto split: option.splits)
  have "copy_items h (children it) = Some (concat (map preorder ks))"
    by (rule copy_items_list [OF _ it(3)]) (rule DNode.IH)
  then show ?case by (simp add: copy_items_Cons it(1,2))
qed

lemma copy_recursive_dtree:
  "is_dtree (heap st) a t \<Longrightarrow> copy_recursive a st = Some (preorder t)"
  by (simp add: copy_recursive_def copy_items_dtree copy_items_Nil)

lemma reprv_dtree:
  "reprv dp h r par w \<Longrightarrow> vaddr w = Some a \<Longrightarrow> is_dtree h a (shown w)"
proof (induction w arbitrary: par a)
  case (VNode s l ts)
  show ?case
  proof (cases s)
    case Top
    with VNode.prems show ?thesis by (simp add: vaddr_def)
  next
    case Virtual
    with VNode.prems show ?thesis by simp
  next
    case (Pending b ph)
    with VNode.prems show ?thesis by (auto simp: vaddr_def split: option.splits)
  next
    case (Real b)
    with VNode.prems have b: "b = a" by (simp add: vaddr_def)
    from VNode.prems(1) Real b obtain it where it: "h a = Some it" "text0 it = l"
      "map Some (children it) = map vaddr ts" "list_all (\<lambda>t. reprv dp h r (Some a) t) ts"
      by (auto split: option.splits simp: list_all_iff)
    from it(3) have len: "length (children it) = length ts" by (metis length_map)
    have "list_all2 (is_dtree h) (children it) (map shown ts)"
    proof (rule list_all2_all_nthI)
      show "length (children it) = length (map shown ts)" using len by simp
      fix i assume "i < length (children it)"
      with len have i: "i < length ts" "i < length (children it)" by simp_all
      from it(3) i have va: "vaddr (ts ! i) = Some (children it ! i)" by (metis nth_map)
      from it(4) i(1) have "reprv dp h r (Some a) (ts ! i)" by (simp add: list_all_length)
      from VNode.IH [OF _ this va] i(1)
      show "is_dtree h (children it ! i) (map shown ts ! i)" by simp
    qed
    with it(1,2) show ?thesis by (simp add: Real b)
  qed
qed

lemma wf_dtree:
  assumes "wf_tree st T" "heap st a \<noteq> None"
  shows "\<exists>t. is_dtree (heap st) a t"
proof (cases "a \<in> set (nodes T)")
  case True
  from nodes_subt [OF True] obtain p u where u: "subt T p = Some u" "vaddr u = Some a" by blast
  from wt_node [OF assms(1) u] obtain par where "reprv (decimal_point st) (heap st) (registry st) par u"
    by blast
  from reprv_dtree [OF this u(2)] show ?thesis ..
next
  case False
  from assms(2) wtD(5) [OF assms(1), of a] have "a \<in> set (fp T)" by simp
  from reprv_placeholder [OF wtD(3) [OF assms(1)] this False] obtain pt where
    "heap st a = Some pt" "text0 pt = []" "children pt = []" by blast
  then have "is_dtree (heap st) a (DNode [] [])" by simp
  then show ?thesis ..
qed

lemma wf_pending_copy:
  assumes "wf_tree st T" "registry st a = Some el"
  shows "\<exists>it. heap st a = Some it \<and> copy_recursive a st = Some [text0 it, []]"
proof -
  from registered_pending [OF assms] obtain p ph l vs where
    w: "subt T p = Some (VNode (Pending a ph) l vs)" by blast
  have v: "vaddr (VNode (Pending a ph) l vs) = Some a" by (simp add: vaddr_def)
  from wt_node [OF assms(1) w v] obtain it par where it: "heap st a = Some it" "text0 it = l"
    and r: "reprv (decimal_point st) (heap st) (registry st) par (VNode (Pending a ph) l vs)" by auto
  from copy_recursive_dtree [OF reprv_dtree [OF r v]] it show ?thesis by simp
qed

text \<open>
  Claim C1, as the code has it. \<open>copy_recursive\<close> changes nothing: its result is a list of
  texts. Wherever the item is the root of a finite tree of items, it returns the texts of
  that tree in depth-first pre-order, the item first and the children in their order; in
  every state the reader reaches, every allocated item is such a root. The placeholder is a
  child like any other: for a pending item the result is the text of the item followed by
  the empty text of its placeholder, whatever the pending element holds.
\<close>

theorem copy_recursive_preorder:
  assumes "run es (initial point) = Some st"
  shows "(\<forall>a t. is_dtree (heap st) a t \<longrightarrow> copy_recursive a st = Some (preorder t))
    \<and> (\<forall>a. heap st a \<noteq> None \<longrightarrow> (\<exists>t. is_dtree (heap st) a t))
    \<and> (\<forall>a. itemElementMap st a \<noteq> None \<longrightarrow>
          (\<exists>it. heap st a = Some it \<and> copy_recursive a st = Some [text0 it, []]))"
proof -
  from reachable_wt [OF assms] obtain T where wt: "wf_tree st T" ..
  have "\<forall>a t. is_dtree (heap st) a t \<longrightarrow> copy_recursive a st = Some (preorder t)"
    using copy_recursive_dtree by blast
  moreover have "\<forall>a. heap st a \<noteq> None \<longrightarrow> (\<exists>t. is_dtree (heap st) a t)"
    using wf_dtree [OF wt] by blast
  moreover have "\<forall>a. itemElementMap st a \<noteq> None \<longrightarrow>
          (\<exists>it. heap st a = Some it \<and> copy_recursive a st = Some [text0 it, []])"
  proof (intro allI impI)
    fix a assume "itemElementMap st a \<noteq> None"
    then obtain el where "registry st a = Some el" by (auto simp: registry_def)
    from wf_pending_copy [OF wt this]
    show "\<exists>it. heap st a = Some it \<and> copy_recursive a st = Some [text0 it, []]" .
  qed
  ultimately show ?thesis by (intro conjI)
qed

theorem copy_recursive_preorder_witness:
  "run [Load (Parsed example_doc)] (initial ''.'') = Some example_pending
   \<and> heap example_pending 0 \<noteq> None
   \<and> is_dtree (heap example_pending) 0 (DNode [] [DNode ''k: OBJECT'' [DNode [] []]])
   \<and> copy_recursive 0 example_pending = Some [[], ''k: OBJECT'', []]
   \<and> itemElementMap example_pending 1 \<noteq> None
   \<and> (\<exists>it. heap example_pending 1 = Some it
         \<and> copy_recursive 1 example_pending = Some [text0 it, []])"
proof -
  have r: "run [Load (Parsed example_doc)] (initial ''.'') = Some example_pending"
    by (simp add: load_example)
  have h: "heap example_pending 0 \<noteq> None" by (simp add: example_pending_def)
  have d: "is_dtree (heap example_pending) 0 (DNode [] [DNode ''k: OBJECT'' [DNode [] []]])"
    by (simp add: example_pending_def item0_def)
  have k: "itemElementMap example_pending 1 \<noteq> None" by (simp add: example_pending_def)
  note inv = copy_recursive_preorder [OF r]
  from inv [THEN conjunct1, rule_format, OF d]
  have c: "copy_recursive 0 example_pending = Some [[], ''k: OBJECT'', []]" by simp
  from inv [THEN conjunct2, THEN conjunct2, rule_format, OF k]
  have p: "\<exists>it. heap example_pending 1 = Some it
         \<and> copy_recursive 1 example_pending = Some [text0 it, []]" .
  from r h d c k p show ?thesis by (intro conjI)
qed

text \<open>
  Claim C1 as the specification states it fails on the pending item of the example: its
  list is its text and the empty text of the placeholder, not its text alone.
\<close>

theorem copy_recursive_pending_counterexample:
  "run [Load (Parsed example_doc)] (initial ''.'') = Some example_pending
   \<and> itemElementMap example_pending 1 = Some (1, OBJECT [(''x'', BOOL True)])
   \<and> map_option text0 (heap example_pending 1) = Some ''k: OBJECT''
   \<and> copy_recursive 1 example_pending = Some [''k: OBJECT'', []]
   \<and> copy_recursive 1 example_pending \<noteq> Some [''k: OBJECT'']"
  by (simp add: load_example)
    (simp add: copy_recursive_def copy_items_Cons copy_items_Nil example_pending_def item0_def)

end
